theory Spec2Isabelle
  imports Main "HOL-Library.Monad_Syntax" "HOL-Library.Signed_Division"
    "HOL-Library.Product_Lexorder"
begin

section \<open>Machine integers\<close>

text \<open>
  Every integer of the program is an \<^verbatim>\<open>int32\<close>.  Values are kept as \<^typ>\<open>int\<close>;
  the two additions on costs (\<^verbatim>\<open>GCost + Weight\<close>, \<^verbatim>\<open>GCost + HCost\<close>) wrap around
  in two's complement.  Slot arithmetic of the heap is on indices below the node
  count and is left unwrapped.
\<close>

definition INITIAL_DISTANCE :: int where
  "INITIAL_DISTANCE = 2000000"

definition wrap32 :: "int \<Rightarrow> int" where
  "wrap32 x = (x + 2147483648) mod 4294967296 - 2147483648"

definition add32 :: "int \<Rightarrow> int \<Rightarrow> int" where
  "add32 a b = wrap32 (a + b)"

section \<open>Data model (BytesPathfinder.h)\<close>

datatype EBytesGraphType = Distance2D | Square | Hexagonal

text \<open>
  \<^verbatim>\<open>FBytesNode\<close>.  The position type \<^verbatim>\<open>FVector2D\<close> belongs to the engine and is
  the type parameter \<open>'v\<close>.
\<close>

record 'v FBytesNode =
  NodeID :: int
  ParentID :: int
  GCost :: int
  HCost :: int
  Location2D :: 'v
  HeapIndex :: int

text \<open>
  A default-constructed node: four members have initialisers, \<^verbatim>\<open>Location2D\<close> and
  \<^verbatim>\<open>HeapIndex\<close> have none and hold whatever the memory held (\<open>loc\<close>, \<open>hi\<close>).
\<close>

definition FBytesNode_default :: "'v \<Rightarrow> int \<Rightarrow> 'v FBytesNode" where
  "FBytesNode_default loc hi =
     \<lparr>NodeID = -1, ParentID = -1, GCost = 0, HCost = 0, Location2D = loc, HeapIndex = hi\<rparr>"

definition FCost :: "'v FBytesNode \<Rightarrow> int" where
  "FCost n = add32 (GCost n) (HCost n)"

text \<open>\<^verbatim>\<open>FBytesEdge\<close>: \<open>EdgeNodeID\<close> is the member \<^verbatim>\<open>NodeID\<close> of the edge.\<close>

record FBytesEdge =
  EdgeNodeID :: int
  Weight :: int

record FBytesEdges =
  NeighbouringEdges :: "FBytesEdge list"

record 'v FBytesGraph =
  Nodes :: "'v FBytesNode list"
  Edges :: "FBytesEdges list"
  GraphType :: EBytesGraphType

text \<open>\<^verbatim>\<open>TArray::IsValidIndex\<close> and the range-checked \<^verbatim>\<open>operator[]\<close>.\<close>

definition IsValidIndex :: "'a list \<Rightarrow> int \<Rightarrow> bool" where
  "IsValidIndex xs i = (0 \<le> i \<and> i < int (length xs))"

definition at :: "'a list \<Rightarrow> int \<Rightarrow> 'a option" where
  "at xs i = (if IsValidIndex xs i then Some (xs ! nat i) else None)"

text \<open>
  A \<^verbatim>\<open>FBytesNode*\<close> into \<^verbatim>\<open>Graph.Nodes\<close> is the index of the node it points to;
  \<open>node_at\<close> dereferences it.  \<open>None\<close> stands for a run that has no defined result
  (an access outside an array, a null pointer) or that does not return.
\<close>

definition node_at :: "'v FBytesNode list \<Rightarrow> nat \<Rightarrow> 'v FBytesNode option" where
  "node_at ns p = (if p < length ns then Some (ns ! p) else None)"

section \<open>The heap (class FBytesPathfindingHeap)\<close>

record FBytesPathfindingHeap =
  Items :: "nat option list"
  Size :: int

definition FBytesPathfindingHeap_new :: "int \<Rightarrow> FBytesPathfindingHeap" where
  "FBytesPathfindingHeap_new Capacity = \<lparr>Items = replicate (nat Capacity) None, Size = 0\<rparr>"

definition GetParent :: "int \<Rightarrow> int" where
  "GetParent Index = (Index - 1) sdiv 2"

definition GetLeftChild :: "int \<Rightarrow> int" where
  "GetLeftChild Index = Index * 2 + 1"

definition GetRightChild :: "int \<Rightarrow> int" where
  "GetRightChild Index = Index * 2 + 2"

text \<open>\<^verbatim>\<open>Items[k]\<close> read as a pointer that is then dereferenced, and \<^verbatim>\<open>Items[k] = p\<close>.\<close>

definition item_at :: "FBytesPathfindingHeap \<Rightarrow> int \<Rightarrow> nat option" where
  "item_at h k = (if IsValidIndex (Items h) k then Items h ! nat k else None)"

definition set_item :: "FBytesPathfindingHeap \<Rightarrow> int \<Rightarrow> nat \<Rightarrow> FBytesPathfindingHeap option" where
  "set_item h k p =
     (if IsValidIndex (Items h) k then Some (h\<lparr>Items := (Items h)[nat k := Some p]\<rparr>) else None)"

text \<open>
  The comparison of \<^verbatim>\<open>SortUp\<close>:
  \<^verbatim>\<open>A->FCost() < B->FCost() || A->FCost() == B->FCost() && A->HCost < B->HCost\<close>;
  \<^verbatim>\<open>SortDown\<close> uses the same with the operands exchanged.
\<close>

definition higher_priority :: "'v FBytesNode \<Rightarrow> 'v FBytesNode \<Rightarrow> bool" where
  "higher_priority a b = (FCost a < FCost b \<or> FCost a = FCost b \<and> HCost a < HCost b)"

definition Swap :: "FBytesPathfindingHeap \<Rightarrow> 'v FBytesNode list \<Rightarrow> nat \<Rightarrow> nat
    \<Rightarrow> (FBytesPathfindingHeap \<times> 'v FBytesNode list) option" where
  "Swap h ns X Y = do {
     nx \<leftarrow> node_at ns X;
     ny \<leftarrow> node_at ns Y;
     h1 \<leftarrow> set_item h (HeapIndex nx) Y;
     h2 \<leftarrow> set_item h1 (HeapIndex ny) X;
     let Temp = HeapIndex nx;
     let ns1 = ns[X := (ns ! X)\<lparr>HeapIndex := HeapIndex (ns ! Y)\<rparr>];
     let ns2 = ns1[Y := (ns1 ! Y)\<lparr>HeapIndex := Temp\<rparr>];
     Some (h2, ns2)
   }"

partial_function (option) SortUp :: "FBytesPathfindingHeap \<Rightarrow> 'v FBytesNode list \<Rightarrow> nat
    \<Rightarrow> (FBytesPathfindingHeap \<times> 'v FBytesNode list) option" where
  "SortUp h ns Node = do {
     n \<leftarrow> node_at ns Node;
     Parent \<leftarrow> item_at h (GetParent (HeapIndex n));
     np \<leftarrow> node_at ns Parent;
     if higher_priority n np
     then do { (h', ns') \<leftarrow> Swap h ns Parent Node; SortUp h' ns' Node }
     else Some (h, ns)
   }"

partial_function (option) SortDown :: "FBytesPathfindingHeap \<Rightarrow> 'v FBytesNode list \<Rightarrow> nat
    \<Rightarrow> (FBytesPathfindingHeap \<times> 'v FBytesNode list) option" where
  "SortDown h ns Node = do {
     n \<leftarrow> node_at ns Node;
     let LIndex = GetLeftChild (HeapIndex n);
     let RIndex = GetRightChild (HeapIndex n);
     if LIndex < Size h
     then do {
       SwapIndex \<leftarrow>
         (if RIndex < Size h
          then do {
            l \<leftarrow> item_at h LIndex;
            nl \<leftarrow> node_at ns l;
            r \<leftarrow> item_at h RIndex;
            nr \<leftarrow> node_at ns r;
            Some (if higher_priority nr nl then RIndex else LIndex)
          }
          else Some LIndex);
       ItemToSwap \<leftarrow> item_at h SwapIndex;
       ni \<leftarrow> node_at ns ItemToSwap;
       if higher_priority ni n
       then do { (h', ns') \<leftarrow> Swap h ns Node ItemToSwap; SortDown h' ns' Node }
       else Some (h, ns)
     }
     else Some (h, ns)
   }"

definition Add :: "FBytesPathfindingHeap \<Rightarrow> 'v FBytesNode list \<Rightarrow> nat
    \<Rightarrow> (FBytesPathfindingHeap \<times> 'v FBytesNode list) option" where
  "Add h ns Node = do {
     n \<leftarrow> node_at ns Node;
     let ns1 = ns[Node := n\<lparr>HeapIndex := Size h\<rparr>];
     h1 \<leftarrow> set_item h (Size h) Node;
     (h2, ns2) \<leftarrow> SortUp h1 ns1 Node;
     Some (h2\<lparr>Size := Size h2 + 1\<rparr>, ns2)
   }"

text \<open>
  \<^verbatim>\<open>RemoveFirst\<close> returns \<^verbatim>\<open>First\<close>; every caller dereferences it at once, so a
  null \<^verbatim>\<open>First\<close> has no defined result.
\<close>

definition RemoveFirst :: "FBytesPathfindingHeap \<Rightarrow> 'v FBytesNode list
    \<Rightarrow> (nat \<times> FBytesPathfindingHeap \<times> 'v FBytesNode list) option" where
  "RemoveFirst h ns = do {
     First \<leftarrow> item_at h 0;
     let h1 = h\<lparr>Size := Size h - 1\<rparr>;
     Last \<leftarrow> item_at h1 (Size h1);
     h2 \<leftarrow> set_item h1 0 Last;
     nl \<leftarrow> node_at ns Last;
     let ns1 = ns[Last := nl\<lparr>HeapIndex := 0\<rparr>];
     (h3, ns3) \<leftarrow> SortDown h2 ns1 Last;
     Some (First, h3, ns3)
   }"

definition UpdateItem :: "FBytesPathfindingHeap \<Rightarrow> 'v FBytesNode list \<Rightarrow> nat
    \<Rightarrow> (FBytesPathfindingHeap \<times> 'v FBytesNode list) option" where
  "UpdateItem h ns Node = SortUp h ns Node"

definition IsNotEmpty :: "FBytesPathfindingHeap \<Rightarrow> bool" where
  "IsNotEmpty h = (Size h > 0)"

text \<open>\<^verbatim>\<open>Contains\<close> walks the whole vector \<^verbatim>\<open>Items\<close>, not only its first \<^verbatim>\<open>Size\<close> slots.\<close>

definition Contains :: "FBytesPathfindingHeap \<Rightarrow> nat \<Rightarrow> bool" where
  "Contains h Node = (Some Node \<in> set (Items h))"

section \<open>The pathfinder (BytesPathfinder.cpp)\<close>

definition CreateGraph :: "'v FBytesGraph" where
  "CreateGraph = \<lparr>Nodes = [], Edges = [], GraphType = Distance2D\<rparr>"

text \<open>
  \<^verbatim>\<open>AddNode\<close>: the new node is copied into \<^verbatim>\<open>Graph.Nodes\<close> before
  \<^verbatim>\<open>NewNode.Location2D = Location2D\<close> runs, so that assignment only changes the
  local variable.  The result is the returned id and the graph.
\<close>

definition AddNode :: "'v \<Rightarrow> int \<Rightarrow> 'v FBytesGraph \<Rightarrow> 'v \<Rightarrow> int \<times> 'v FBytesGraph" where
  "AddNode loc hi Graph Location2D' =
     (let NewNode = (FBytesNode_default loc hi)\<lparr>NodeID := int (length (Nodes Graph))\<rparr>;
          Graph1 = Graph\<lparr>Nodes := Nodes Graph @ [NewNode]\<rparr>;
          NewNode1 = NewNode\<lparr>Location2D := Location2D'\<rparr>;
          NewEdges = \<lparr>NeighbouringEdges = []\<rparr>;
          Graph2 = Graph1\<lparr>Edges := Edges Graph1 @ [NewEdges]\<rparr>
      in (NodeID NewNode1, Graph2))"

text \<open>\<^verbatim>\<open>AddOrSetEdge\<close>.\<close>

definition set_weight :: "int \<Rightarrow> int \<Rightarrow> FBytesEdges \<Rightarrow> FBytesEdges" where
  "set_weight target w es =
     es\<lparr>NeighbouringEdges :=
          map (\<lambda>e. if EdgeNodeID e = target then e\<lparr>Weight := w\<rparr> else e) (NeighbouringEdges es)\<rparr>"

definition add_edge :: "FBytesEdge \<Rightarrow> FBytesEdges \<Rightarrow> FBytesEdges" where
  "add_edge e es = es\<lparr>NeighbouringEdges := NeighbouringEdges es @ [e]\<rparr>"

definition AddOrSetEdge :: "'v FBytesGraph \<Rightarrow> int \<Rightarrow> int \<Rightarrow> int \<Rightarrow> 'v FBytesGraph option" where
  "AddOrSetEdge Graph NodeAID NodeBID Weight' =
     (if \<not> IsValidIndex (Nodes Graph) NodeAID \<or> \<not> IsValidIndex (Nodes Graph) NodeBID
      then Some Graph
      else do {
        ea \<leftarrow> at (Edges Graph) NodeAID;
        if \<exists>e \<in> set (NeighbouringEdges ea). EdgeNodeID e = NodeBID
        then do {
          let es1 = (Edges Graph)[nat NodeAID := set_weight NodeBID Weight' ea];
          eb \<leftarrow> at es1 NodeBID;
          let es2 = es1[nat NodeBID := set_weight NodeAID Weight' eb];
          Some (Graph\<lparr>Edges := es2\<rparr>)
        }
        else do {
          let EdgeAB = \<lparr>EdgeNodeID = NodeBID, Weight = Weight'\<rparr>;
          let EdgeBA = \<lparr>EdgeNodeID = NodeAID, Weight = Weight'\<rparr>;
          let es1 = (Edges Graph)[nat NodeAID := add_edge EdgeAB ea];
          eb \<leftarrow> at es1 NodeBID;
          let es2 = es1[nat NodeBID := add_edge EdgeBA eb];
          Some (Graph\<lparr>Edges := es2\<rparr>)
        }
      })"

definition InitNodes :: "'v FBytesGraph \<Rightarrow> 'v FBytesGraph" where
  "InitNodes Graph =
     Graph\<lparr>Nodes := map (\<lambda>Node. Node\<lparr>GCost := INITIAL_DISTANCE, HCost := 0, ParentID := -1\<rparr>)
                       (Nodes Graph)\<rparr>"

text \<open>
  \<^verbatim>\<open>CalcHeuristicDistance\<close>.  \<open>dist a b\<close> stands for the engine's
  \<^verbatim>\<open>FMath::FloorToInt32(FVector2D::Distance(a, b))\<close>.
\<close>

definition CalcHeuristicDistance :: "('v \<Rightarrow> 'v \<Rightarrow> int) \<Rightarrow> 'v FBytesGraph \<Rightarrow> int \<Rightarrow> int
    \<Rightarrow> int option" where
  "CalcHeuristicDistance dist Graph StartID TargetID = do {
     NodeA \<leftarrow> at (Nodes Graph) StartID;
     NodeB \<leftarrow> at (Nodes Graph) TargetID;
     Some (dist (Location2D NodeA) (Location2D NodeB))
   }"

definition GetNodesInRange :: "'v FBytesGraph \<Rightarrow> int \<Rightarrow> int list" where
  "GetNodesInRange Graph MaxTravelCost =
     map NodeID (filter (\<lambda>Node. GCost Node \<le> MaxTravelCost) (Nodes Graph))"

subsection \<open>FindPathsToNodes\<close>

text \<open>The loop \<^verbatim>\<open>for (FBytesNode& Node : Graph.Nodes) Unvisited.Add(&Node)\<close>.\<close>

fun add_nodes :: "FBytesPathfindingHeap \<Rightarrow> 'v FBytesNode list \<Rightarrow> nat list
    \<Rightarrow> (FBytesPathfindingHeap \<times> 'v FBytesNode list) option" where
  "add_nodes h ns [] = Some (h, ns)"
| "add_nodes h ns (p # ps) = do { (h', ns') \<leftarrow> Add h ns p; add_nodes h' ns' ps }"

text \<open>
  The loop over the edges of the node just removed; \<open>nid\<close> is \<^verbatim>\<open>Node->NodeID\<close>.
\<close>

fun relax_edges :: "FBytesPathfindingHeap \<Rightarrow> 'v FBytesGraph \<Rightarrow> int \<Rightarrow> FBytesEdge list
    \<Rightarrow> (FBytesPathfindingHeap \<times> 'v FBytesGraph) option" where
  "relax_edges h Graph nid [] = Some (h, Graph)"
| "relax_edges h Graph nid (NeighbourEdge # es) = do {
     cur \<leftarrow> at (Nodes Graph) nid;
     let Distance = add32 (GCost cur) (Weight NeighbourEdge);
     nb \<leftarrow> at (Nodes Graph) (EdgeNodeID NeighbourEdge);
     if Distance < GCost nb
     then do {
       let q = nat (EdgeNodeID NeighbourEdge);
       let ns1 = (Nodes Graph)[q := nb\<lparr>GCost := Distance, ParentID := nid\<rparr>];
       (h', ns') \<leftarrow> UpdateItem h ns1 q;
       relax_edges h' (Graph\<lparr>Nodes := ns'\<rparr>) nid es
     }
     else relax_edges h Graph nid es
   }"

partial_function (option) FindPathsToNodes_loop :: "FBytesPathfindingHeap \<Rightarrow> 'v FBytesGraph
    \<Rightarrow> 'v FBytesGraph option" where
  "FindPathsToNodes_loop Unvisited Graph =
     (if IsNotEmpty Unvisited
      then do {
        (Node, h1, ns1) \<leftarrow> RemoveFirst Unvisited (Nodes Graph);
        n \<leftarrow> node_at ns1 Node;
        es \<leftarrow> at (Edges Graph) (NodeID n);
        (h2, Graph2) \<leftarrow> relax_edges h1 (Graph\<lparr>Nodes := ns1\<rparr>) (NodeID n) (NeighbouringEdges es);
        FindPathsToNodes_loop h2 Graph2
      }
      else Some Graph)"

definition FindPathsToNodes :: "'v FBytesGraph \<Rightarrow> int \<Rightarrow> 'v FBytesGraph option" where
  "FindPathsToNodes Graph StartID = do {
     let Unvisited = FBytesPathfindingHeap_new (int (length (Nodes Graph)));
     s \<leftarrow> at (Nodes Graph) StartID;
     let ns0 = (Nodes Graph)[nat StartID := s\<lparr>GCost := 0\<rparr>];
     (h1, ns1) \<leftarrow> add_nodes Unvisited ns0 [0..<length ns0];
     FindPathsToNodes_loop h1 (Graph\<lparr>Nodes := ns1\<rparr>)
   }"

subsection \<open>FindPath\<close>

text \<open>
  The loop over the edges of \<^verbatim>\<open>CurrentNode\<close> (the pointer \<open>cur\<close>); \<open>Closed\<close> is
  \<^verbatim>\<open>ClosedSet\<close>.
\<close>

fun FindPath_edges :: "('v \<Rightarrow> 'v \<Rightarrow> int) \<Rightarrow> FBytesPathfindingHeap \<Rightarrow> 'v FBytesGraph
    \<Rightarrow> int set \<Rightarrow> nat \<Rightarrow> int \<Rightarrow> FBytesEdge list
    \<Rightarrow> (FBytesPathfindingHeap \<times> 'v FBytesGraph) option" where
  "FindPath_edges dist h Graph Closed cur TargetID [] = Some (h, Graph)"
| "FindPath_edges dist h Graph Closed cur TargetID (Edge # es) = do {
     nb \<leftarrow> at (Nodes Graph) (EdgeNodeID Edge);
     let Neighbour = nat (EdgeNodeID Edge);
     if NodeID nb \<in> Closed
     then FindPath_edges dist h Graph Closed cur TargetID es
     else do {
       c \<leftarrow> node_at (Nodes Graph) cur;
       let MovementCost = add32 (GCost c) (Weight Edge);
       if Contains h Neighbour \<and> GCost nb < MovementCost
       then FindPath_edges dist h Graph Closed cur TargetID es
       else do {
         let ns1 = (Nodes Graph)[Neighbour := nb\<lparr>ParentID := NodeID c, GCost := MovementCost\<rparr>];
         hc \<leftarrow> CalcHeuristicDistance dist (Graph\<lparr>Nodes := ns1\<rparr>) (NodeID nb) TargetID;
         let ns2 = ns1[Neighbour := (ns1 ! Neighbour)\<lparr>HCost := hc\<rparr>];
         (h', ns') \<leftarrow> (if Contains h Neighbour then UpdateItem h ns2 Neighbour
                       else Add h ns2 Neighbour);
         FindPath_edges dist h' (Graph\<lparr>Nodes := ns'\<rparr>) Closed cur TargetID es
       }
     }
   }"

text \<open>
  The result flag tells which of the two exits was taken: \<open>True\<close> for the
  \<^verbatim>\<open>return\<close> after \<^verbatim>\<open>"Pathfinding: Path Found"\<close>, \<open>False\<close> for the end of the
  function after \<^verbatim>\<open>"Pathfinding: No Path Found"\<close>.
\<close>

partial_function (option) FindPath_loop :: "('v \<Rightarrow> 'v \<Rightarrow> int) \<Rightarrow> FBytesPathfindingHeap
    \<Rightarrow> 'v FBytesGraph \<Rightarrow> int set \<Rightarrow> int \<Rightarrow> ('v FBytesGraph \<times> bool) option" where
  "FindPath_loop dist OpenSet Graph ClosedSet TargetID =
     (if IsNotEmpty OpenSet
      then do {
        (CurrentNode, h1, ns1) \<leftarrow> RemoveFirst OpenSet (Nodes Graph);
        c \<leftarrow> node_at ns1 CurrentNode;
        let ClosedSet1 = insert (NodeID c) ClosedSet;
        if NodeID c = TargetID
        then Some (Graph\<lparr>Nodes := ns1\<rparr>, True)
        else do {
          es \<leftarrow> at (Edges Graph) (NodeID c);
          (h2, Graph2) \<leftarrow> FindPath_edges dist h1 (Graph\<lparr>Nodes := ns1\<rparr>) ClosedSet1 CurrentNode
                           TargetID (NeighbouringEdges es);
          FindPath_loop dist h2 Graph2 ClosedSet1 TargetID
        }
      }
      else Some (Graph, False))"

definition FindPath :: "('v \<Rightarrow> 'v \<Rightarrow> int) \<Rightarrow> 'v FBytesGraph \<Rightarrow> int \<Rightarrow> int
    \<Rightarrow> ('v FBytesGraph \<times> bool) option" where
  "FindPath dist Graph StartID TargetID = do {
     let Graph0 = InitNodes Graph;
     let OpenSet = FBytesPathfindingHeap_new (int (length (Nodes Graph0)));
     s \<leftarrow> at (Nodes Graph0) StartID;
     let ns1 = (Nodes Graph0)[nat StartID := s\<lparr>GCost := 0\<rparr>];
     hc \<leftarrow> CalcHeuristicDistance dist (Graph0\<lparr>Nodes := ns1\<rparr>) StartID TargetID;
     let ns2 = ns1[nat StartID := (ns1 ! nat StartID)\<lparr>HCost := hc\<rparr>];
     (h1, ns3) \<leftarrow> Add OpenSet ns2 (nat StartID);
     FindPath_loop dist h1 (Graph0\<lparr>Nodes := ns3\<rparr>) {} TargetID
   }"

subsection \<open>GetPath\<close>

text \<open>
  How the retrace loop ends when it ends: it leaves through its condition with the
  collected path, or it reads \<^verbatim>\<open>Graph.Nodes[CurrentNodeID]\<close> outside the array.
  A run that never ends is \<open>None\<close>.
\<close>

datatype retrace_end = Returned "int list" | ReadOutside int

partial_function (option) GetPath_retrace :: "'v FBytesGraph \<Rightarrow> int \<Rightarrow> int \<Rightarrow> int list
    \<Rightarrow> retrace_end option" where
  "GetPath_retrace Graph StartNodeID CurrentNodeID Path =
     (if CurrentNodeID \<noteq> StartNodeID
      then (if IsValidIndex (Nodes Graph) CurrentNodeID
            then GetPath_retrace Graph StartNodeID
                   (ParentID (Nodes Graph ! nat CurrentNodeID)) (Path @ [CurrentNodeID])
            else Some (ReadOutside CurrentNodeID))
      else Some (Returned Path))"

definition GetPath :: "('v \<Rightarrow> 'v \<Rightarrow> int) \<Rightarrow> 'v FBytesGraph \<Rightarrow> int \<Rightarrow> int \<Rightarrow> bool
    \<Rightarrow> (int list \<times> 'v FBytesGraph) option" where
  "GetPath dist Graph StartNodeID TargetNodeID bRecalculate =
     (if \<not> IsValidIndex (Nodes Graph) StartNodeID \<or> \<not> IsValidIndex (Nodes Graph) TargetNodeID
      then Some ([], Graph)
      else if ParentID (Nodes Graph ! nat TargetNodeID) = -1
      then Some ([], Graph)
      else do {
        Graph1 \<leftarrow> (if bRecalculate
                   then map_option fst (FindPath dist Graph StartNodeID TargetNodeID)
                   else Some Graph);
        e \<leftarrow> GetPath_retrace Graph1 StartNodeID TargetNodeID [];
        (case e of
           Returned Path \<Rightarrow> Some (rev Path, Graph1)
         | ReadOutside i \<Rightarrow> None)
      })"

section \<open>Notions of the specification\<close>

text \<open>Node ids are dense: the node stored at position \<open>i\<close> has id \<open>i\<close>.\<close>

definition ids_dense :: "'v FBytesGraph \<Rightarrow> bool" where
  "ids_dense Graph = (map NodeID (Nodes Graph) = map int [0..<length (Nodes Graph)])"

text \<open>
  Following \<^verbatim>\<open>ParentID\<close> links from \<open>cur\<close>, inside the node array, arrives at the
  start node.
\<close>

inductive reaches_start :: "'v FBytesGraph \<Rightarrow> int \<Rightarrow> int \<Rightarrow> bool"
  for Graph StartNodeID where
  at_start: "reaches_start Graph StartNodeID StartNodeID"
| follow: "cur \<noteq> StartNodeID \<Longrightarrow> IsValidIndex (Nodes Graph) cur \<Longrightarrow>
     reaches_start Graph StartNodeID (ParentID (Nodes Graph ! nat cur)) \<Longrightarrow>
     reaches_start Graph StartNodeID cur"


text \<open>Every predecessor field is "none" or the id of a node.\<close>

definition parents_ok :: "'v FBytesGraph \<Rightarrow> bool" where
  "parents_ok Graph =
     (\<forall>n \<in> set (Nodes Graph). ParentID n = -1 \<or> IsValidIndex (Nodes Graph) (ParentID n))"

text \<open>
  A graph the searches can run on: node ids are the indices, every node has its
  adjacency slot, every edge ends at a node, and every weight lies in \<open>0..W\<close>.
\<close>

definition graph_ok :: "int \<Rightarrow> 'v FBytesGraph \<Rightarrow> bool" where
  "graph_ok W Graph =
     (ids_dense Graph \<and> length (Edges Graph) = length (Nodes Graph)
      \<and> (\<forall>adj \<in> set (Edges Graph). \<forall>e \<in> set (NeighbouringEdges adj).
            IsValidIndex (Nodes Graph) (EdgeNodeID e) \<and> 0 \<le> Weight e \<and> Weight e \<le> W))"

text \<open>
  \<open>path_cost Graph StartID v c\<close>: some walk along edges from \<open>StartID\<close> to \<open>v\<close> has
  total weight \<open>c\<close> (a mathematical integer, no wrap-around).
\<close>

inductive path_cost :: "'v FBytesGraph \<Rightarrow> int \<Rightarrow> int \<Rightarrow> int \<Rightarrow> bool" for Graph StartID where
  start: "IsValidIndex (Nodes Graph) StartID \<Longrightarrow> path_cost Graph StartID StartID 0"
| edge: "path_cost Graph StartID u c \<Longrightarrow> at (Edges Graph) u = Some adj \<Longrightarrow>
     e \<in> set (NeighbouringEdges adj) \<Longrightarrow> path_cost Graph StartID (EdgeNodeID e) (c + Weight e)"


text \<open>The cost and predecessor fields of all nodes, in order.\<close>

definition costs_parents :: "'v FBytesGraph \<Rightarrow> (int \<times> int) list" where
  "costs_parents Graph = map (\<lambda>n. (GCost n, ParentID n)) (Nodes Graph)"




section \<open>Sequences of heap operations\<close>










section \<open>Invariants of the heap\<close>

text \<open>Exchange of two slot numbers.\<close>

definition exch :: "nat \<Rightarrow> nat \<Rightarrow> nat \<Rightarrow> nat" where
  "exch i j k = (if k = i then j else if k = j then i else k)"

text \<open>
  The heap order on the keys \<open>kk\<close> of the first \<open>n\<close> slots; the order with the slot
  \<open>i\<close> possibly too small for its ancestors (\<open>up_part\<close>, while sorting up) or too
  large for its descendants (\<open>down_part\<close>, while sorting down).
\<close>

definition heap_order :: "(nat \<Rightarrow> 'a::linorder) \<Rightarrow> nat \<Rightarrow> bool" where
  "heap_order kk n = (\<forall>k. 0 < k \<and> k < n \<longrightarrow> kk ((k - 1) div 2) \<le> kk k)"

definition up_part :: "(nat \<Rightarrow> 'a::linorder) \<Rightarrow> nat \<Rightarrow> nat \<Rightarrow> bool" where
  "up_part kk n i =
     ((\<forall>k. 0 < k \<and> k < n \<and> k \<noteq> i \<longrightarrow> kk ((k - 1) div 2) \<le> kk k)
      \<and> (\<forall>k. 0 < k \<and> k < n \<and> (k - 1) div 2 = i \<and> 0 < i \<longrightarrow> kk ((i - 1) div 2) \<le> kk k))"

definition down_part :: "(nat \<Rightarrow> 'a::linorder) \<Rightarrow> nat \<Rightarrow> nat \<Rightarrow> bool" where
  "down_part kk n i =
     ((\<forall>k. 0 < k \<and> k < n \<and> (k - 1) div 2 \<noteq> i \<longrightarrow> kk ((k - 1) div 2) \<le> kk k)
      \<and> (\<forall>k. 0 < k \<and> k < n \<and> (k - 1) div 2 = i \<and> 0 < i \<longrightarrow> kk ((i - 1) div 2) \<le> kk k))"

text \<open>
  The ordering key of a node, compared lexicographically: \<open>higher_priority a b\<close> is
  \<open>key a < key b\<close>.
\<close>

definition key :: "'v FBytesNode \<Rightarrow> int \<times> int" where
  "key n = (FCost n, HCost n)"

definition slot :: "FBytesPathfindingHeap \<Rightarrow> nat \<Rightarrow> nat" where
  "slot h k = the (Items h ! k)"

definition slot_key :: "FBytesPathfindingHeap \<Rightarrow> 'v FBytesNode list \<Rightarrow> nat \<Rightarrow> int \<times> int" where
  "slot_key h ns k = key (ns ! slot h k)"

text \<open>
  The first \<open>n\<close> slots hold pointers to nodes, and each of these nodes records its
  slot in \<^verbatim>\<open>HeapIndex\<close>.
\<close>

definition heap_slots :: "FBytesPathfindingHeap \<Rightarrow> 'v FBytesNode list \<Rightarrow> nat \<Rightarrow> bool" where
  "heap_slots h ns n =
     (n \<le> length (Items h)
      \<and> (\<forall>k<n. \<exists>p<length ns. Items h ! k = Some p \<and> HeapIndex (ns ! p) = int k))"

definition heap_set :: "FBytesPathfindingHeap \<Rightarrow> nat \<Rightarrow> nat set" where
  "heap_set h n = slot h ` {..<n}"

text \<open>The heap operations change nothing of a node but its \<^verbatim>\<open>HeapIndex\<close>.\<close>

definition strip :: "'v FBytesNode \<Rightarrow> 'v FBytesNode" where
  "strip n = n\<lparr>HeapIndex := 0\<rparr>"

definition frame :: "'v FBytesNode list \<Rightarrow> 'v FBytesNode list \<Rightarrow> bool" where
  "frame ns ns' = (map strip ns' = map strip ns)"

definition sift_post :: "FBytesPathfindingHeap \<Rightarrow> 'v FBytesNode list \<Rightarrow> nat
    \<Rightarrow> FBytesPathfindingHeap \<Rightarrow> 'v FBytesNode list \<Rightarrow> bool" where
  "sift_post h ns n h' ns' =
     (heap_slots h' ns' n \<and> heap_order (slot_key h' ns') n \<and> Size h' = Size h
      \<and> length (Items h') = length (Items h) \<and> frame ns ns' \<and> set (Items h') = set (Items h)
      \<and> heap_set h' n = heap_set h n)"

definition heap_inv :: "FBytesPathfindingHeap \<Rightarrow> 'v FBytesNode list \<Rightarrow> nat \<Rightarrow> bool" where
  "heap_inv h ns n = (heap_slots h ns n \<and> heap_order (slot_key h ns) n \<and> Size h = int n)"

section \<open>Invariants of the single-source search\<close>






section \<open>Invariants of the point-to-point search\<close>




section \<open>Example graphs\<close>

definition unit_node :: "int \<Rightarrow> int \<Rightarrow> int \<Rightarrow> unit FBytesNode" where
  "unit_node i p c =
     \<lparr>NodeID = i, ParentID = p, GCost = c, HCost = 0, Location2D = (), HeapIndex = 0\<rparr>"

definition graph_of :: "'v FBytesNode list \<Rightarrow> (int \<times> int) list list \<Rightarrow> 'v FBytesGraph" where
  "graph_of ns adj =
     \<lparr>Nodes = ns,
      Edges = map (\<lambda>l. \<lparr>NeighbouringEdges = map (\<lambda>(t, w). \<lparr>EdgeNodeID = t, Weight = w\<rparr>) l\<rparr>) adj,
      GraphType = Distance2D\<rparr>"

text \<open>One node, reset by \<open>InitNodes\<close>.\<close>

definition sentinel_graph :: "unit FBytesGraph" where
  "sentinel_graph = InitNodes (graph_of [unit_node 0 (-1) 0] [[]])"

text \<open>
  Three nodes in a line, 0 -5- 1 -1- 2: \<open>cyc_graph0\<close> after the reset, \<open>cyc_graph\<close>
  after \<open>FindPathsToNodes\<close> from 0 and then from 2.
\<close>

definition cyc_graph0 :: "unit FBytesGraph" where
  "cyc_graph0 = InitNodes (graph_of [unit_node 0 (-1) 0, unit_node 1 (-1) 0, unit_node 2 (-1) 0]
      [[(1, 5)], [(0, 5), (2, 1)], [(1, 1)]])"

definition cyc_graph :: "unit FBytesGraph" where
  "cyc_graph = graph_of [unit_node 0 (-1) 0, unit_node 1 2 1, unit_node 2 1 0]
      [[(1, 5)], [(0, 5), (2, 1)], [(1, 1)]]"




text \<open>Two nodes joined by an edge of weight 7, as \<open>AddNode\<close> leaves them (cost 0).\<close>

definition fresh_graph :: "unit FBytesGraph" where
  "fresh_graph = graph_of [unit_node 0 (-1) 0, unit_node 1 (-1) 0] [[(1, 7)], [(0, 7)]]"





text \<open>
  Two nodes joined by an edge of weight -1, as \<open>AddNode\<close> and \<open>AddOrSetEdge\<close> build
  them.
\<close>

definition neg_graph :: "unit FBytesGraph" where
  "neg_graph = graph_of [unit_node 0 (-1) 0, unit_node 1 (-1) 0] [[(1, -1)], [(0, -1)]]"


section \<open>Basic facts\<close>

lemma wrap32_id: "- 2147483648 \<le> x \<Longrightarrow> x < 2147483648 \<Longrightarrow> wrap32 x = x"
  by (simp add: wrap32_def)

lemma GetParent_0: "GetParent 0 = 0"
  by (simp add: GetParent_def signed_divide_int_def)

lemma GetParent_pos: "0 < i \<Longrightarrow> GetParent i = (i - 1) div 2"
  by (simp add: GetParent_def signed_divide_int_def sgn_if)

lemmas example_defs = graph_of_def unit_node_def InitNodes_def INITIAL_DISTANCE_def

lemmas heap_eval = FBytesPathfindingHeap_new_def at_def IsValidIndex_def Add_def RemoveFirst_def
  node_at_def UpdateItem_def IsNotEmpty_def set_item_def item_at_def SortUp.simps SortDown.simps
  GetParent_0 GetParent_pos GetLeftChild_def GetRightChild_def higher_priority_def FCost_def
  add32_def wrap32_def Swap_def Contains_def

section \<open>AddNode\<close>

lemma AddNode_result:
  "AddNode loc hi g p =
     (int (length (Nodes g)),
      g\<lparr>Nodes := Nodes g @ [\<lparr>NodeID = int (length (Nodes g)), ParentID = -1, GCost = 0, HCost = 0,
                               Location2D = loc, HeapIndex = hi\<rparr>],
        Edges := Edges g @ [\<lparr>NeighbouringEdges = []\<rparr>]\<rparr>)"
  by (simp add: AddNode_def FBytesNode_default_def Let_def)

lemma AddNode_ids_dense: "ids_dense g \<Longrightarrow> ids_dense (snd (AddNode loc hi g p))"
  by (simp add: AddNode_result ids_dense_def)

text \<open>
  Claim C4.  \<open>AddNode\<close> on the empty graph with position \<open>(1, 0)\<close> returns id 0 and
  appends one node with id 0 and one empty adjacency slot, but the position stored
  in the node is the one the default-constructed node held (here \<open>(0, 0)\<close>), not
  the argument: the assignment to \<^verbatim>\<open>NewNode.Location2D\<close> comes after the copy into
  the array.
\<close>

theorem AddNode_position_not_stored:
  "AddNode (0::int, 0::int) 0 CreateGraph (1, 0) =
     (0, \<lparr>Nodes = [\<lparr>NodeID = 0, ParentID = -1, GCost = 0, HCost = 0, Location2D = (0, 0),
                     HeapIndex = 0\<rparr>],
          Edges = [\<lparr>NeighbouringEdges = []\<rparr>], GraphType = Distance2D\<rparr>)"
  by (simp add: AddNode_result CreateGraph_def)

section \<open>Contains\<close>

text \<open>
  Claim C9.  In a heap of capacity 1, after \<open>Add\<close> of a node and \<open>RemoveFirst\<close>,
  the heap is empty (\<open>Size = 0\<close>) and \<open>Contains\<close> still answers \<open>True\<close> for the node
  that was removed: the pointer stays in slot 0 and \<open>Contains\<close> scans every slot.
\<close>

theorem Contains_after_RemoveFirst:
  "do { (h1, ns1) \<leftarrow> Add (FBytesPathfindingHeap_new 1) [unit_node 0 (-1) 0] 0;
        (First, h2, ns2) \<leftarrow> RemoveFirst h1 ns1;
        Some (First, Size h2, Contains h2 First) } = Some (0, 0, True)"
  by (simp add: heap_eval unit_node_def)

section \<open>GetNodesInRange\<close>

lemma ids_dense_nth: "ids_dense g \<Longrightarrow> i < length (Nodes g) \<Longrightarrow> NodeID (Nodes g ! i) = int i"
  unfolding ids_dense_def by (metis nth_map nth_upt add_0 length_upt diff_zero)

lemma GetNodesInRange_dense:
  assumes "ids_dense g"
  shows "GetNodesInRange g m
       = map int (filter (\<lambda>i. GCost (Nodes g ! i) \<le> m) [0..<length (Nodes g)])"
proof -
  have "map NodeID (filter (\<lambda>n. GCost n \<le> m) (Nodes g))
      = map NodeID (map ((!) (Nodes g))
          (filter (\<lambda>i. GCost (Nodes g ! i) \<le> m) [0..<length (Nodes g)]))"
    by (subst (1) map_nth[symmetric]) (simp only: filter_map o_def)
  also have "\<dots> = map int (filter (\<lambda>i. GCost (Nodes g ! i) \<le> m) [0..<length (Nodes g)])"
    using ids_dense_nth [OF assms] by auto
  finally show ?thesis by (simp add: GetNodesInRange_def)
qed

text \<open>
  Claim C8, as stated, fails at the threshold 2,000,000 itself: the threshold does
  not exceed the sentinel, and the node holding the sentinel cost is returned.
\<close>

theorem GetNodesInRange_sentinel_counterexample:
  "GCost (Nodes sentinel_graph ! 0) = INITIAL_DISTANCE \<and> \<not> INITIAL_DISTANCE < 2000000
   \<and> GetNodesInRange sentinel_graph 2000000 = [0]"
  by (simp add: sentinel_graph_def example_defs GetNodesInRange_def)

text \<open>
  Claim C8, amended.  On a graph whose node ids match their storage positions,
  \<open>GetNodesInRange\<close> returns exactly the ids of the nodes whose cached cost is at most
  the threshold, in strictly increasing order, and a node holding the sentinel cost
  is returned if and only if the threshold is at least the sentinel.
\<close>

theorem GetNodesInRange_contract:
  assumes "ids_dense g"
  shows "GetNodesInRange g m
       = map int (filter (\<lambda>i. GCost (Nodes g ! i) \<le> m) [0..<length (Nodes g)])
    \<and> sorted_wrt (<) (GetNodesInRange g m)
    \<and> (\<forall>i < length (Nodes g). GCost (Nodes g ! i) = INITIAL_DISTANCE \<longrightarrow>
          (int i \<in> set (GetNodesInRange g m) \<longleftrightarrow> INITIAL_DISTANCE \<le> m))"
proof -
  let ?is = "filter (\<lambda>i. GCost (Nodes g ! i) \<le> m) [0..<length (Nodes g)]"
  have eq: "GetNodesInRange g m = map int ?is"
    by (rule GetNodesInRange_dense [OF assms])
  have "sorted_wrt (<) ?is"
    by (rule sorted_wrt_filter) simp
  then have "sorted_wrt (<) (map int ?is)"
    by (simp add: sorted_wrt_map)
  moreover have "\<forall>i < length (Nodes g). GCost (Nodes g ! i) = INITIAL_DISTANCE \<longrightarrow>
          (int i \<in> set (map int ?is) \<longleftrightarrow> INITIAL_DISTANCE \<le> m)"
    by auto
  ultimately show ?thesis using eq by simp
qed

theorem GetNodesInRange_contract_witness:
  "ids_dense sentinel_graph \<and> GetNodesInRange sentinel_graph 1999999 = []
    \<and> GetNodesInRange sentinel_graph 2000000 = [0]"
  using GetNodesInRange_contract [of sentinel_graph 1999999]
    GetNodesInRange_contract [of sentinel_graph 2000000]
  by (simp add: ids_dense_def sentinel_graph_def example_defs)

section \<open>GetPath\<close>

text \<open>
  Claim C6.  When either id is not a valid index, or the target's predecessor is
  -1, \<open>GetPath\<close> returns the empty path and the graph as it was, whatever the
  recalculate flag: the flag is only looked at after these two checks.
\<close>

theorem GetPath_invalid_or_unreached:
  assumes "\<not> IsValidIndex (Nodes g) s \<or> \<not> IsValidIndex (Nodes g) t
           \<or> ParentID (Nodes g ! nat t) = -1"
  shows "GetPath dist g s t b = Some ([], g)"
  using assms by (auto simp: GetPath_def)

theorem GetPath_invalid_or_unreached_witness:
  "GetPath (\<lambda>a b. 0) sentinel_graph 0 0 True = Some ([], sentinel_graph)
   \<and> GetPath (\<lambda>a b. 0) sentinel_graph 0 5 True = Some ([], sentinel_graph)
   \<and> GetPath (\<lambda>a b. 0) sentinel_graph (-1) 0 False = Some ([], sentinel_graph)"
proof -
  have a: "ParentID (Nodes sentinel_graph ! nat 0) = -1"
    by (simp add: sentinel_graph_def example_defs)
  have b: "\<not> IsValidIndex (Nodes sentinel_graph) 5" "\<not> IsValidIndex (Nodes sentinel_graph) (-1)"
    by (simp_all add: IsValidIndex_def sentinel_graph_def example_defs)
  show ?thesis
    using GetPath_invalid_or_unreached [of sentinel_graph 0 0 "\<lambda>a b. 0" True]
      GetPath_invalid_or_unreached [of sentinel_graph 0 5 "\<lambda>a b. 0" True]
      GetPath_invalid_or_unreached [of sentinel_graph "-1" 0 "\<lambda>a b. 0" False] a b
    by simp
qed

subsection \<open>The retrace loop\<close>

lemmas GetPath_retrace_induct =
  GetPath_retrace.raw_induct [rotated 1, consumes 1, case_names step]

lemma retrace_reaches:
  "reaches_start g s cur \<Longrightarrow>
   \<exists>p. GetPath_retrace g s cur acc = Some (Returned (acc @ p)) \<and> s \<notin> set p
      \<and> (cur \<noteq> s \<longrightarrow> p \<noteq> [] \<and> hd p = cur) \<and> (cur = s \<longrightarrow> p = [])"
proof (induction arbitrary: acc rule: reaches_start.induct)
  case at_start
  then show ?case by (subst GetPath_retrace.simps) simp
next
  case (follow cur)
  from follow.IH [of "acc @ [cur]"] obtain p where
    p: "GetPath_retrace g s (ParentID (Nodes g ! nat cur)) (acc @ [cur])
          = Some (Returned ((acc @ [cur]) @ p))"
    "s \<notin> set p" by blast
  have "GetPath_retrace g s cur acc = Some (Returned (acc @ (cur # p)))"
    using follow.hyps p(1) by (subst GetPath_retrace.simps) simp
  then show ?case using p(2) follow.hyps(1) by (intro exI [of _ "cur # p"]) simp
qed

lemma retrace_result:
  "GetPath_retrace g s cur acc = Some r \<Longrightarrow>
   (case r of
      Returned path \<Rightarrow> reaches_start g s cur
    | ReadOutside i \<Rightarrow> \<not> IsValidIndex (Nodes g) i
         \<and> (i = cur \<or> (\<exists>n \<in> set (Nodes g). ParentID n = i)))"
proof (induction rule: GetPath_retrace_induct)
  case (step retr g s cur acc r)
  show ?case
  proof (cases "cur = s")
    case True
    with step(2) show ?thesis by (auto intro: reaches_start.at_start)
  next
    case False
    show ?thesis
    proof (cases "IsValidIndex (Nodes g) cur")
      case True
      with False step(2) have "retr g s (ParentID (Nodes g ! nat cur)) (acc @ [cur]) = Some r"
        by simp
      from step(1) [OF this]
      have ih: "case r of Returned path \<Rightarrow> reaches_start g s (ParentID (Nodes g ! nat cur))
        | ReadOutside i \<Rightarrow> \<not> IsValidIndex (Nodes g) i
            \<and> (i = ParentID (Nodes g ! nat cur) \<or> (\<exists>n \<in> set (Nodes g). ParentID n = i))" .
      have mem: "Nodes g ! nat cur \<in> set (Nodes g)"
        using True by (auto simp: IsValidIndex_def intro!: nth_mem)
      show ?thesis
        using ih False True mem by (auto split: retrace_end.splits intro: reaches_start.follow)
    next
      case inv: False
      with False step(2) show ?thesis by auto
    qed
  qed
qed

lemma retrace_Returned:
  assumes "GetPath_retrace g s cur [] = Some (Returned path)"
  shows "reaches_start g s cur \<and> s \<notin> set path \<and> (path \<noteq> [] \<longrightarrow> hd path = cur)
     \<and> (cur = s \<longrightarrow> path = [])"
proof -
  from retrace_result [OF assms] have r: "reaches_start g s cur" by simp
  from retrace_reaches [OF r, of "[]"] assms show ?thesis using r by auto
qed

lemma retrace_cycle_None: "GetPath_retrace cyc_graph 0 1 [] = None"
proof -
  have "GetPath_retrace g s cur acc = Some r \<Longrightarrow>
        g = cyc_graph \<longrightarrow> s = 0 \<longrightarrow> cur \<noteq> 1 \<and> cur \<noteq> 2"
    for g :: "unit FBytesGraph" and s cur acc r
  proof (induction rule: GetPath_retrace_induct)
    case (step retr g s cur acc r)
    show ?case
    proof (intro impI)
      assume g: "g = cyc_graph" and s: "s = 0"
      have p1: "IsValidIndex (Nodes cyc_graph) 1" "IsValidIndex (Nodes cyc_graph) 2"
        "ParentID (Nodes cyc_graph ! nat 1) = 2" "ParentID (Nodes cyc_graph ! nat 2) = 1"
        by (simp_all add: cyc_graph_def graph_of_def unit_node_def IsValidIndex_def)
      show "cur \<noteq> 1 \<and> cur \<noteq> 2"
      proof (intro conjI notI)
        assume "cur = 1"
        with step(2) g s p1 have "retr cyc_graph 0 2 (acc @ [1]) = Some r" by simp
        from step(1) [OF this] show False by simp
      next
        assume "cur = 2"
        with step(2) g s p1 have "retr cyc_graph 0 1 (acc @ [2]) = Some r" by simp
        from step(1) [OF this] show False by simp
      qed
    qed
  qed
  from this [of cyc_graph 0 1 "[]"] show ?thesis
    by (cases "GetPath_retrace cyc_graph 0 1 []") auto
qed

text \<open>
  Claim C10, as stated, fails on a state the searches themselves produce: after
  the reset, \<open>FindPathsToNodes\<close> from node 0 and then from node 2 leave nodes 1 and
  2 as each other's predecessor.  Start 0 and target 1 pass the checks of \<open>GetPath\<close>,
  the chain from 1 never reaches 0, and the loop never reads index -1: it runs
  forever.
\<close>

theorem GetPath_retrace_cycle_counterexample:
  "FindPathsToNodes cyc_graph0 0 \<bind> (\<lambda>g. FindPathsToNodes g 2) = Some cyc_graph
   \<and> IsValidIndex (Nodes cyc_graph) 0 \<and> IsValidIndex (Nodes cyc_graph) 1
   \<and> ParentID (Nodes cyc_graph ! nat 1) = 2
   \<and> \<not> reaches_start cyc_graph 0 1
   \<and> GetPath_retrace cyc_graph 0 1 [] = None"
proof -
  have run: "FindPathsToNodes cyc_graph0 0 \<bind> (\<lambda>g. FindPathsToNodes g 2) = Some cyc_graph"
    by (simp add: FindPathsToNodes_def cyc_graph0_def cyc_graph_def example_defs heap_eval
        FindPathsToNodes_loop.simps upt_rec)
  have nr: "\<not> reaches_start cyc_graph 0 1"
    using retrace_reaches [of cyc_graph 0 1 "[]"] retrace_cycle_None by auto
  show ?thesis using run nr retrace_cycle_None
    by (simp add: cyc_graph_def example_defs IsValidIndex_def)
qed

text \<open>
  Claim C10, amended.  The retrace loop returns exactly when following \<open>ParentID\<close>
  links from the target reaches the start.  Otherwise it never returns: it either
  runs forever (the chain runs into a cycle that avoids the start) or reads
  \<^verbatim>\<open>Graph.Nodes\<close> at an index outside the array; when the target is valid and every
  predecessor field is -1 or a valid id, that index is -1.
\<close>

theorem GetPath_retrace_termination:
  "((\<exists>path. GetPath_retrace g s t [] = Some (Returned path)) \<longleftrightarrow> reaches_start g s t)
   \<and> (\<not> reaches_start g s t \<longrightarrow>
        GetPath_retrace g s t [] = None
        \<or> (\<exists>i. GetPath_retrace g s t [] = Some (ReadOutside i) \<and> \<not> IsValidIndex (Nodes g) i
              \<and> (IsValidIndex (Nodes g) t \<and> parents_ok g \<longrightarrow> i = -1)))"
proof (intro conjI impI iffI)
  assume "\<exists>path. GetPath_retrace g s t [] = Some (Returned path)"
  then show "reaches_start g s t" using retrace_Returned by blast
next
  assume "reaches_start g s t"
  from retrace_reaches [OF this, of "[]"]
  show "\<exists>path. GetPath_retrace g s t [] = Some (Returned path)" by auto
next
  assume nr: "\<not> reaches_start g s t"
  show "GetPath_retrace g s t [] = None
        \<or> (\<exists>i. GetPath_retrace g s t [] = Some (ReadOutside i) \<and> \<not> IsValidIndex (Nodes g) i
              \<and> (IsValidIndex (Nodes g) t \<and> parents_ok g \<longrightarrow> i = -1))"
  proof (cases "GetPath_retrace g s t []")
    case None
    then show ?thesis by simp
  next
    case (Some r)
    show ?thesis
    proof (cases r)
      case (Returned path)
      with Some nr retrace_Returned [of g s t path] show ?thesis by simp
    next
      case (ReadOutside i)
      from retrace_result [OF Some] ReadOutside
      have i: "\<not> IsValidIndex (Nodes g) i" "i = t \<or> (\<exists>n \<in> set (Nodes g). ParentID n = i)"
        by simp_all
      have "IsValidIndex (Nodes g) t \<and> parents_ok g \<longrightarrow> i = -1"
        using i unfolding parents_ok_def by auto
      with Some ReadOutside i(1) show ?thesis by simp
    qed
  qed
qed

theorem GetPath_retrace_termination_witness:
  "reaches_start cyc_graph 2 1 \<and> GetPath_retrace cyc_graph 2 1 [] = Some (Returned [1])
   \<and> \<not> reaches_start cyc_graph0 0 1
   \<and> GetPath_retrace cyc_graph0 0 1 [] = Some (ReadOutside (-1))"
proof -
  have a: "GetPath_retrace cyc_graph 2 1 [] = Some (Returned [1])"
    by (simp add: GetPath_retrace.simps cyc_graph_def example_defs IsValidIndex_def)
  have b: "GetPath_retrace cyc_graph0 0 1 [] = Some (ReadOutside (-1))"
    by (simp add: GetPath_retrace.simps cyc_graph0_def example_defs IsValidIndex_def)
  from GetPath_retrace_termination [of cyc_graph 2 1] a
  have "reaches_start cyc_graph 2 1" by blast
  moreover from GetPath_retrace_termination [of cyc_graph0 0 1] b
  have "\<not> reaches_start cyc_graph0 0 1" by auto
  ultimately show ?thesis using a b by simp
qed


section \<open>The heap order on keys\<close>

lemma up_part_done:
  "up_part kk n i \<Longrightarrow> i = 0 \<or> kk ((i - 1) div 2) \<le> kk i \<Longrightarrow> heap_order kk n"
  unfolding up_part_def heap_order_def by (metis not_gr_zero)

lemma up_part_swap:
  fixes kk :: "nat \<Rightarrow> 'a::linorder"
  assumes u: "up_part kk n i" and lt: "kk i < kk ((i - 1) div 2)" and i: "0 < i" "i < n"
  shows "up_part (\<lambda>k. kk (exch ((i - 1) div 2) i k)) n ((i - 1) div 2)"
proof -
  let ?j = "(i - 1) div 2"
  have ji: "?j < i" using i by arith
  have a: "\<And>k. 0 < k \<Longrightarrow> k < n \<Longrightarrow> k \<noteq> i \<Longrightarrow> kk ((k - 1) div 2) \<le> kk k"
    using u unfolding up_part_def by blast
  have b: "\<And>k. 0 < k \<Longrightarrow> k < n \<Longrightarrow> (k - 1) div 2 = i \<Longrightarrow> kk ?j \<le> kk k"
    using u i unfolding up_part_def by blast
  show ?thesis
    unfolding up_part_def
  proof (intro conjI allI impI)
    fix k assume k: "0 < k \<and> k < n \<and> k \<noteq> ?j"
    let ?p = "(k - 1) div 2"
    show "kk (exch ?j i ?p) \<le> kk (exch ?j i k)"
    proof (cases "k = i")
      case True
      then show ?thesis using lt ji by (simp add: exch_def)
    next
      case ki: False
      have pk: "?p < k" using k by arith
      show ?thesis
      proof (cases "?p = ?j")
        case True
        have "kk ?j \<le> kk k" using a [of k] k ki True by simp
        then show ?thesis using True ki k lt by (simp add: exch_def)
      next
        case pj: False
        show ?thesis
        proof (cases "?p = i")
          case True
          then show ?thesis using b [of k] k ki pj by (simp add: exch_def)
        next
          case False
          then show ?thesis using a [of k] k ki pj by (simp add: exch_def)
        qed
      qed
    qed
  next
    fix k assume k: "0 < k \<and> k < n \<and> (k - 1) div 2 = ?j \<and> 0 < ?j"
    have jj: "(?j - 1) div 2 < ?j" using k by arith
    have pj: "kk ((?j - 1) div 2) \<le> kk ?j"
      using a [of ?j] k ji i by simp
    have e1: "exch ?j i ((?j - 1) div 2) = (?j - 1) div 2"
      using jj ji by (simp add: exch_def)
    show "kk (exch ?j i ((?j - 1) div 2)) \<le> kk (exch ?j i k)"
    proof (cases "k = i")
      case True
      then show ?thesis using pj e1 ji by (simp add: exch_def)
    next
      case False
      have "k \<noteq> ?j" using k by arith
      moreover have "kk ?j \<le> kk k" using a [of k] k False by simp
      ultimately show ?thesis using pj e1 False by (simp add: exch_def)
    qed
  qed
qed

lemma down_part_done:
  fixes kk :: "nat \<Rightarrow> 'a::linorder"
  assumes d: "down_part kk n i"
    and c: "\<forall>k. 0 < k \<and> k < n \<and> (k - 1) div 2 = i \<longrightarrow> kk i \<le> kk k"
  shows "heap_order kk n"
  using d c unfolding down_part_def heap_order_def by metis

lemma down_part_swap:
  fixes kk :: "nat \<Rightarrow> 'a::linorder"
  assumes d: "down_part kk n i" and c: "c < n" "(c - 1) div 2 = i" "0 < c"
    and lt: "kk c < kk i"
    and mn: "\<forall>k. 0 < k \<and> k < n \<and> (k - 1) div 2 = i \<longrightarrow> kk c \<le> kk k"
  shows "down_part (\<lambda>k. kk (exch i c k)) n c"
proof -
  have ic: "i < c" using c by arith
  have a: "\<And>k. 0 < k \<Longrightarrow> k < n \<Longrightarrow> (k - 1) div 2 \<noteq> i \<Longrightarrow> kk ((k - 1) div 2) \<le> kk k"
    using d unfolding down_part_def by blast
  have b: "\<And>k. 0 < k \<Longrightarrow> k < n \<Longrightarrow> (k - 1) div 2 = i \<Longrightarrow> 0 < i \<Longrightarrow> kk ((i - 1) div 2) \<le> kk k"
    using d unfolding down_part_def by blast
  show ?thesis
    unfolding down_part_def
  proof (intro conjI allI impI)
    fix k assume k: "0 < k \<and> k < n \<and> (k - 1) div 2 \<noteq> c"
    let ?p = "(k - 1) div 2"
    have pk: "?p < k" using k by arith
    show "kk (exch i c ?p) \<le> kk (exch i c k)"
    proof (cases "?p = i")
      case True
      have "k \<noteq> i" using pk True by simp
      then show ?thesis using True mn k lt ic by (auto simp: exch_def)
    next
      case pi: False
      show ?thesis
      proof (cases "k = i")
        case True
        have "0 < i" using True k by simp
        from b [of c] c this have "kk ((i - 1) div 2) \<le> kk c" by simp
        moreover have "(i - 1) div 2 \<noteq> c" "(i - 1) div 2 \<noteq> i" using ic \<open>0 < i\<close> by arith+
        ultimately show ?thesis using True ic by (simp add: exch_def)
      next
        case False
        have "k \<noteq> c" using pi c by auto
        then show ?thesis using a [of k] k pi False by (simp add: exch_def)
      qed
    qed
  next
    fix k assume k: "0 < k \<and> k < n \<and> (k - 1) div 2 = c \<and> 0 < c"
    have "k \<noteq> i" "k \<noteq> c" using k ic by arith+
    moreover have "kk c \<le> kk k" using a [of k] k ic by simp
    ultimately show "kk (exch i c ((c - 1) div 2)) \<le> kk (exch i c k)"
      using c ic by (simp add: exch_def)
  qed
qed

lemma heap_order_root:
  fixes kk :: "nat \<Rightarrow> 'a::linorder"
  assumes "heap_order kk n" "k < n"
  shows "kk 0 \<le> kk k"
  using assms(2)
proof (induction k rule: less_induct)
  case (less k)
  show ?case
  proof (cases "k = 0")
    case True then show ?thesis by simp
  next
    case False
    then have p: "(k - 1) div 2 < k" by arith
    have "kk 0 \<le> kk ((k - 1) div 2)" using less.IH [OF p] p less.prems by simp
    also have "\<dots> \<le> kk k" using assms(1) False less.prems unfolding heap_order_def by simp
    finally show ?thesis .
  qed
qed

section \<open>Slots, pointers and Swap\<close>

lemma higher_priority_key: "higher_priority a b \<longleftrightarrow> key a < key b"
  by (auto simp: higher_priority_def key_def less_prod_def)

lemma frame_refl [simp]: "frame ns ns"
  by (simp add: frame_def)

lemma frame_trans: "frame a b \<Longrightarrow> frame b c \<Longrightarrow> frame a c"
  by (simp add: frame_def)

lemma frame_length: "frame ns ns' \<Longrightarrow> length ns' = length ns"
  unfolding frame_def by (metis length_map)

lemma frame_strip: "frame ns ns' \<Longrightarrow> p < length ns \<Longrightarrow> strip (ns' ! p) = strip (ns ! p)"
  unfolding frame_def by (metis length_map nth_map)

lemma strip_fields:
  assumes e: "strip a = strip b"
  shows "NodeID a = NodeID b \<and> ParentID a = ParentID b \<and> GCost a = GCost b
     \<and> HCost a = HCost b \<and> Location2D a = Location2D b \<and> key a = key b"
proof -
  have "NodeID (strip a) = NodeID (strip b)" by (rule arg_cong [OF e])
  moreover have "ParentID (strip a) = ParentID (strip b)" by (rule arg_cong [OF e])
  moreover have "GCost (strip a) = GCost (strip b)" by (rule arg_cong [OF e])
  moreover have "HCost (strip a) = HCost (strip b)" by (rule arg_cong [OF e])
  moreover have "Location2D (strip a) = Location2D (strip b)" by (rule arg_cong [OF e])
  ultimately show ?thesis by (simp add: strip_def key_def FCost_def)
qed

lemma frame_fields:
  assumes "frame ns ns'" "p < length ns"
  shows "NodeID (ns' ! p) = NodeID (ns ! p)" "ParentID (ns' ! p) = ParentID (ns ! p)"
    "GCost (ns' ! p) = GCost (ns ! p)" "HCost (ns' ! p) = HCost (ns ! p)"
    "Location2D (ns' ! p) = Location2D (ns ! p)" "key (ns' ! p) = key (ns ! p)"
  using strip_fields [OF frame_strip [OF assms]] by simp_all

lemma frame_update_index: "p < length ns \<Longrightarrow> frame ns (ns[p := (ns ! p)\<lparr>HeapIndex := k\<rparr>])"
  by (simp add: frame_def strip_def map_update list_eq_iff_nth_eq nth_list_update)

lemma heap_slotsD:
  assumes "heap_slots h ns n" "k < n"
  shows "Items h ! k = Some (slot h k)" "slot h k < length ns"
    "HeapIndex (ns ! slot h k) = int k" "k < length (Items h)"
proof -
  from assms obtain p where p: "p < length ns" "Items h ! k = Some p" "HeapIndex (ns ! p) = int k"
    unfolding heap_slots_def by blast
  then have s: "slot h k = p" by (simp add: slot_def)
  show "Items h ! k = Some (slot h k)" "slot h k < length ns"
    "HeapIndex (ns ! slot h k) = int k" using p s by simp_all
  show "k < length (Items h)" using assms unfolding heap_slots_def by simp
qed

lemma heap_slots_inj:
  assumes "heap_slots h ns n" "k < n" "k' < n" "slot h k = slot h k'"
  shows "k = k'"
proof -
  have "int k = HeapIndex (ns ! slot h k)" using heap_slotsD(3) [OF assms(1,2)] by (rule sym)
  also have "\<dots> = HeapIndex (ns ! slot h k')" by (simp only: assms(4))
  also have "\<dots> = int k'" by (rule heap_slotsD(3) [OF assms(1,3)])
  finally show ?thesis by (simp only: of_nat_eq_iff)
qed

lemma item_at_slot:
  assumes "heap_slots h ns n" "k < n"
  shows "item_at h (int k) = Some (slot h k)"
  using heap_slotsD [OF assms] by (simp add: item_at_def IsValidIndex_def)

lemma node_at_slot:
  assumes "heap_slots h ns n" "k < n"
  shows "node_at ns (slot h k) = Some (ns ! slot h k)"
  using heap_slotsD [OF assms] by (simp add: node_at_def)

lemma slot_eqI: "Items h ! k = Some p \<Longrightarrow> slot h k = p"
  by (simp add: slot_def)

lemma Swap_spec:
  assumes hs: "heap_slots h ns n" and i: "i < n" and j: "j < n"
  shows "\<exists>h' ns'. Swap h ns (slot h i) (slot h j) = Some (h', ns')
      \<and> heap_slots h' ns' n \<and> Size h' = Size h \<and> length (Items h') = length (Items h)
      \<and> (\<forall>k<n. slot h' k = slot h (exch i j k))
      \<and> frame ns ns' \<and> set (Items h') = set (Items h)"
proof -
  define x where "x = slot h i"
  define y where "y = slot h j"
  define its where "its = (Items h)[i := Some y, j := Some x]"
  define h' where "h' = h\<lparr>Items := its\<rparr>"
  define ns1 where "ns1 = ns[x := (ns ! x)\<lparr>HeapIndex := int j\<rparr>]"
  define ns' where "ns' = ns1[y := (ns1 ! y)\<lparr>HeapIndex := int i\<rparr>]"
  have di: "Items h ! i = Some x" "x < length ns" "HeapIndex (ns ! x) = int i" "i < length (Items h)"
    using heap_slotsD [OF hs i] by (simp_all add: x_def)
  have dj: "Items h ! j = Some y" "y < length ns" "HeapIndex (ns ! y) = int j" "j < length (Items h)"
    using heap_slotsD [OF hs j] by (simp_all add: y_def)
  have xy: "x = y \<longleftrightarrow> i = j"
    using heap_slots_inj [OF hs i j] by (auto simp: x_def y_def)
  have sw: "Swap h ns x y = Some (h', ns')"
    using di dj
    by (simp add: Swap_def node_at_def set_item_def IsValidIndex_def Let_def h'_def its_def
        ns'_def ns1_def)
  have it: "Items h' ! k = Some (slot h (exch i j k))" if k: "k < n" for k
  proof -
    have kl: "k < length (Items h)" by (rule heap_slotsD(4) [OF hs k])
    have "its ! k = (if k = j then Some x else if k = i then Some y else Items h ! k)"
      using kl by (simp add: its_def nth_list_update)
    also have "\<dots> = Some (slot h (exch i j k))"
      using heap_slotsD(1) [OF hs k] by (auto simp: exch_def x_def y_def)
    finally show ?thesis by (simp add: h'_def)
  qed
  have sl: "\<forall>k<n. slot h' k = slot h (exch i j k)"
    using it by (simp add: slot_eqI)
  have fr: "frame ns ns'"
  proof -
    have "frame ns ns1" unfolding ns1_def using di(2) by (rule frame_update_index)
    moreover have "frame ns1 ns'" unfolding ns'_def
      by (rule frame_update_index) (simp add: ns1_def dj(2))
    ultimately show ?thesis by (rule frame_trans)
  qed
  have idx: "HeapIndex (ns' ! slot h k) = int (exch i j k)" if k: "k < n" for k
  proof -
    have kx: "slot h k = x \<longleftrightarrow> k = i"
      using heap_slots_inj [OF hs k i] by (auto simp: x_def)
    have ky: "slot h k = y \<longleftrightarrow> k = j"
      using heap_slots_inj [OF hs k j] by (auto simp: y_def)
    have kl: "slot h k < length ns" by (rule heap_slotsD(2) [OF hs k])
    have ki: "HeapIndex (ns ! slot h k) = int k" by (rule heap_slotsD(3) [OF hs k])
    show ?thesis
    proof (cases "k = j")
      case True
      then have "slot h k = y" using ky by simp
      then show ?thesis using True dj(2) by (simp add: ns'_def ns1_def exch_def)
    next
      case kj: False
      then have ny: "slot h k \<noteq> y" using ky by simp
      show ?thesis
      proof (cases "k = i")
        case True
        then have "slot h k = x" using kx by simp
        then show ?thesis using True kj ny di(2) by (simp add: ns'_def ns1_def exch_def)
      next
        case False
        then have "slot h k \<noteq> x" using kx by simp
        then show ?thesis using False kj ny ki by (simp add: ns'_def ns1_def exch_def)
      qed
    qed
  qed
  have ln: "length ns' = length ns" by (simp add: ns'_def ns1_def)
  have hs': "heap_slots h' ns' n"
    unfolding heap_slots_def
  proof (intro conjI allI impI)
    show "n \<le> length (Items h')" using hs by (simp add: heap_slots_def h'_def its_def)
  next
    fix k assume k: "k < n"
    have e: "exch i j k < n" using i j k by (simp add: exch_def)
    have ee: "exch i j (exch i j k) = k" by (auto simp: exch_def)
    have "slot h (exch i j k) < length ns'" using heap_slotsD(2) [OF hs e] ln by simp
    moreover have "HeapIndex (ns' ! slot h (exch i j k)) = int k"
      using idx [OF e] ee by simp
    ultimately show "\<exists>p<length ns'. Items h' ! k = Some p \<and> HeapIndex (ns' ! p) = int k"
      using it [OF k] by blast
  qed
  have st: "set (Items h') = set (Items h)"
  proof -
    have "its = (Items h)[i := Items h ! j, j := Items h ! i]"
      by (simp add: its_def di(1) dj(1))
    then have "set its = set (Items h)"
      using di(4) dj(4) by (simp add: set_swap)
    then show ?thesis by (simp add: h'_def)
  qed
  have "Size h' = Size h" "length (Items h') = length (Items h)"
    by (simp_all add: h'_def its_def)
  then show ?thesis using sw hs' sl fr st unfolding x_def y_def by blast
qed

section \<open>SortUp\<close>

lemma GetParent_nat: "GetParent (int i) = int ((i - 1) div 2)"
proof (cases "i = 0")
  case True
  then show ?thesis by (simp add: GetParent_0)
next
  case False
  then have "GetParent (int i) = (int i - 1) div 2" by (simp add: GetParent_pos)
  also have "\<dots> = int ((i - 1) div 2)" using False by (simp add: of_nat_diff zdiv_int)
  finally show ?thesis .
qed

lemma exch_image: "i < n \<Longrightarrow> j < n \<Longrightarrow> exch i j ` {..<n} = {..<n}"
proof (intro equalityI subsetI)
  fix k assume "i < n" "j < n" "k \<in> exch i j ` {..<n}"
  then show "k \<in> {..<n}" by (auto simp: exch_def)
next
  fix k assume a: "i < n" "j < n" "k \<in> {..<n}"
  have "k = exch i j (exch i j k)" by (auto simp: exch_def)
  moreover have "exch i j k \<in> {..<n}" using a by (auto simp: exch_def)
  ultimately show "k \<in> exch i j ` {..<n}" by (rule image_eqI)
qed

lemma heap_set_exch:
  assumes "\<forall>k<n. slot h' k = slot h (exch i j k)" "i < n" "j < n"
  shows "heap_set h' n = heap_set h n"
proof -
  have "slot h' ` {..<n} = (\<lambda>k. slot h (exch i j k)) ` {..<n}"
    using assms(1) by (intro image_cong) simp_all
  also have "\<dots> = slot h ` (exch i j ` {..<n})" by (simp add: image_image)
  also have "\<dots> = slot h ` {..<n}" using assms(2,3) by (simp add: exch_image)
  finally show ?thesis by (simp add: heap_set_def)
qed

lemma up_part_cong: "(\<And>k. k < n \<Longrightarrow> kk k = kk' k) \<Longrightarrow> i < n \<Longrightarrow> up_part kk n i \<Longrightarrow> up_part kk' n i"
  unfolding up_part_def
proof (intro conjI allI impI)
  fix k assume e: "\<And>k. k < n \<Longrightarrow> kk k = kk' k" and i: "i < n"
    and u: "(\<forall>k. 0 < k \<and> k < n \<and> k \<noteq> i \<longrightarrow> kk ((k - 1) div 2) \<le> kk k) \<and>
       (\<forall>k. 0 < k \<and> k < n \<and> (k - 1) div 2 = i \<and> 0 < i \<longrightarrow> kk ((i - 1) div 2) \<le> kk k)"
  { assume k: "0 < k \<and> k < n \<and> k \<noteq> i"
    then have "(k - 1) div 2 < n" by arith
    then show "kk' ((k - 1) div 2) \<le> kk' k" using u k e by metis }
  { assume k: "0 < k \<and> k < n \<and> (k - 1) div 2 = i \<and> 0 < i"
    have "(i - 1) div 2 < n" using i by arith
    then show "kk' ((i - 1) div 2) \<le> kk' k" using u k e by metis }
qed

lemma down_part_cong: "(\<And>k. k < n \<Longrightarrow> kk k = kk' k) \<Longrightarrow> i < n \<Longrightarrow> down_part kk n i \<Longrightarrow> down_part kk' n i"
  unfolding down_part_def
proof (intro conjI allI impI)
  fix k assume e: "\<And>k. k < n \<Longrightarrow> kk k = kk' k" and i: "i < n"
    and u: "(\<forall>k. 0 < k \<and> k < n \<and> (k - 1) div 2 \<noteq> i \<longrightarrow> kk ((k - 1) div 2) \<le> kk k) \<and>
       (\<forall>k. 0 < k \<and> k < n \<and> (k - 1) div 2 = i \<and> 0 < i \<longrightarrow> kk ((i - 1) div 2) \<le> kk k)"
  { assume k: "0 < k \<and> k < n \<and> (k - 1) div 2 \<noteq> i"
    then have "(k - 1) div 2 < n" by arith
    then show "kk' ((k - 1) div 2) \<le> kk' k" using u k e by metis }
  { assume k: "0 < k \<and> k < n \<and> (k - 1) div 2 = i \<and> 0 < i"
    have "(i - 1) div 2 < n" using i by arith
    then show "kk' ((i - 1) div 2) \<le> kk' k" using u k e by metis }
qed


lemma slot_key_exch:
  assumes hs: "heap_slots h ns n" and sl: "\<forall>k<n. slot h' k = slot h (exch i j k)"
    and fr: "frame ns ns'" and i: "i < n" and j: "j < n" and k: "k < n"
  shows "slot_key h' ns' k = slot_key h ns (exch i j k)"
proof -
  have e: "exch i j k < n" using i j k by (simp add: exch_def)
  have "slot_key h' ns' k = key (ns' ! slot h (exch i j k))" using sl k by (simp add: slot_key_def)
  also have "\<dots> = key (ns ! slot h (exch i j k))"
    by (rule frame_fields(6) [OF fr heap_slotsD(2) [OF hs e]])
  finally show ?thesis by (simp add: slot_key_def)
qed

lemma sift_post_trans:
  assumes "Size h1 = Size h" "length (Items h1) = length (Items h)" "frame ns ns1"
    "set (Items h1) = set (Items h)" "heap_set h1 n = heap_set h n"
    "sift_post h1 ns1 n h' ns'"
  shows "sift_post h ns n h' ns'"
  using assms unfolding sift_post_def by (auto intro: frame_trans)

lemma SortUp_unfold:
  assumes hs: "heap_slots h ns n" and i: "i < n"
  shows "SortUp h ns (slot h i) =
     (if slot_key h ns i < slot_key h ns ((i - 1) div 2)
      then do { (h', ns') \<leftarrow> Swap h ns (slot h ((i - 1) div 2)) (slot h i);
                SortUp h' ns' (slot h i) }
      else Some (h, ns))"
proof -
  have j: "(i - 1) div 2 < n" using i by arith
  have a: "item_at h (int ((i - Suc 0) div 2)) = Some (slot h ((i - Suc 0) div 2))"
    using item_at_slot [OF hs j] by simp
  have b: "node_at ns (slot h ((i - Suc 0) div 2)) = Some (ns ! slot h ((i - Suc 0) div 2))"
    using node_at_slot [OF hs j] by simp
  show ?thesis
    by (subst SortUp.simps)
      (simp add: node_at_slot [OF hs i] heap_slotsD(3) [OF hs i] GetParent_nat
        a b higher_priority_key slot_key_def)
qed

lemma SortUp_spec:
  assumes "heap_slots h ns n" "i < n" "up_part (slot_key h ns) n i"
  shows "\<exists>h' ns'. SortUp h ns (slot h i) = Some (h', ns') \<and> sift_post h ns n h' ns'"
  using assms
proof (induction i arbitrary: h ns rule: less_induct)
  case (less i)
  note hs = less.prems(1) and i = less.prems(2) and up = less.prems(3)
  let ?j = "(i - 1) div 2"
  have j: "?j < n" using i by arith
  show ?case
  proof (cases "slot_key h ns i < slot_key h ns ?j")
    case False
    then have "i = 0 \<or> slot_key h ns ?j \<le> slot_key h ns i" by auto
    from up_part_done [OF up this] have "heap_order (slot_key h ns) n" .
    then have "sift_post h ns n h ns" using hs by (simp add: sift_post_def)
    moreover have "SortUp h ns (slot h i) = Some (h, ns)"
      using False by (simp add: SortUp_unfold [OF hs i])
    ultimately show ?thesis by blast
  next
    case True
    then have i0: "0 < i" by (cases "i = 0") auto
    then have ji: "?j < i" by arith
    from Swap_spec [OF hs j i] obtain h1 ns1 where
      sw: "Swap h ns (slot h ?j) (slot h i) = Some (h1, ns1)"
      and hs1: "heap_slots h1 ns1 n" and sz: "Size h1 = Size h"
      and ln: "length (Items h1) = length (Items h)"
      and sl: "\<forall>k<n. slot h1 k = slot h (exch ?j i k)"
      and fr: "frame ns ns1" and st: "set (Items h1) = set (Items h)"
      by blast
    have sk: "\<And>k. k < n \<Longrightarrow> slot_key h ns (exch ?j i k) = slot_key h1 ns1 k"
      using slot_key_exch [OF hs sl fr j i] by simp
    have "up_part (\<lambda>k. slot_key h ns (exch ?j i k)) n ?j"
      by (rule up_part_swap [OF up True i0 i])
    then have up1: "up_part (slot_key h1 ns1) n ?j"
      by (rule up_part_cong [OF sk j, rotated]) simp
    have p1: "slot h1 ?j = slot h i" using sl j ji by (simp add: exch_def)
    from less.IH [OF ji hs1 j up1] obtain h' ns' where
      r: "SortUp h1 ns1 (slot h1 ?j) = Some (h', ns')" "sift_post h1 ns1 n h' ns'" by blast
    have hset: "heap_set h1 n = heap_set h n" by (rule heap_set_exch [OF sl j i])
    have "SortUp h ns (slot h i) = Some (h', ns')"
      using True sw r(1) p1 by (simp add: SortUp_unfold [OF hs i])
    moreover have "sift_post h ns n h' ns'"
      by (rule sift_post_trans [OF sz ln fr st hset r(2)])
    ultimately show ?thesis by blast
  qed
qed

section \<open>SortDown\<close>

lemma SortDown_leaf:
  assumes hs: "heap_slots h ns n" and sz: "Size h = int n" and i: "i < n"
    and L: "L = 2 * i + 1" and nl: "\<not> L < n"
  shows "SortDown h ns (slot h i) = Some (h, ns)"
proof -
  have gl: "GetLeftChild (int i) = int L" by (simp add: GetLeftChild_def L)
  show ?thesis
    using nl
    by (subst SortDown.simps)
      (simp add: node_at_slot [OF hs i] heap_slotsD(3) [OF hs i] gl sz Let_def)
qed

lemma SortDown_unfold:
  assumes hs: "heap_slots h ns n" and sz: "Size h = int n" and i: "i < n"
    and L: "L = 2 * i + 1" and R: "R = 2 * i + 2" and ln: "L < n"
    and c: "c = (if R < n \<and> slot_key h ns R < slot_key h ns L then R else L)"
  shows "SortDown h ns (slot h i) =
     (if slot_key h ns c < slot_key h ns i
      then do { (h', ns') \<leftarrow> Swap h ns (slot h i) (slot h c); SortDown h' ns' (slot h i) }
      else Some (h, ns))"
proof -
  have gl: "GetLeftChild (int i) = int L" by (simp add: GetLeftChild_def L)
  have gr: "GetRightChild (int i) = int R" by (simp add: GetRightChild_def R)
  have cn: "c < n" using c ln by (simp split: if_splits)
  note fi = node_at_slot [OF hs i] heap_slotsD(3) [OF hs i]
  note fl = item_at_slot [OF hs ln] node_at_slot [OF hs ln]
  note fc = item_at_slot [OF hs cn] node_at_slot [OF hs cn]
  show ?thesis
  proof (cases "R < n")
    case True
    note fr = item_at_slot [OF hs True] node_at_slot [OF hs True]
    show ?thesis
    proof (cases "slot_key h ns R < slot_key h ns L")
      case lt: True
      then have cR: "c = R" using c True by simp
      have hp: "higher_priority (ns ! slot h R) (ns ! slot h L)"
        using lt by (simp add: higher_priority_key slot_key_def)
      show ?thesis
        unfolding cR using True ln
        by (subst SortDown.simps)
          (simp add: fi gl gr sz Let_def fl fr hp higher_priority_key [of "ns ! slot h R" "ns ! slot h i"] slot_key_def)
    next
      case ge: False
      then have cL: "c = L" using c by simp
      have hp: "\<not> higher_priority (ns ! slot h R) (ns ! slot h L)"
        using ge by (simp add: higher_priority_key slot_key_def)
      show ?thesis
        unfolding cL using True ln
        by (subst SortDown.simps)
          (simp add: fi gl gr sz Let_def fl fr hp higher_priority_key [of "ns ! slot h L" "ns ! slot h i"] slot_key_def)
    qed
  next
    case False
    then have cL: "c = L" using c by simp
    show ?thesis
      unfolding cL using False ln
      by (subst SortDown.simps)
        (simp add: fi gl gr sz Let_def fl higher_priority_key [of "ns ! slot h L" "ns ! slot h i"] slot_key_def)
  qed
qed

lemma SortDown_spec:
  assumes "heap_slots h ns n" "Size h = int n" "i < n" "down_part (slot_key h ns) n i"
  shows "\<exists>h' ns'. SortDown h ns (slot h i) = Some (h', ns') \<and> sift_post h ns n h' ns'"
  using assms
proof (induction "n - i" arbitrary: i h ns rule: less_induct)
  case less
  note hs = less.prems(1) and sz = less.prems(2) and i = less.prems(3) and dp = less.prems(4)
  define L where "L = 2 * i + 1"
  define R where "R = 2 * i + 2"
  have child: "\<And>k. 0 < k \<and> (k - 1) div 2 = i \<longleftrightarrow> k = L \<or> k = R"
    unfolding L_def R_def by arith
  show ?case
  proof (cases "L < n")
    case False
    have "\<forall>k. 0 < k \<and> k < n \<and> (k - 1) div 2 = i \<longrightarrow> slot_key h ns i \<le> slot_key h ns k"
    proof (intro allI impI)
      fix k assume k: "0 < k \<and> k < n \<and> (k - 1) div 2 = i"
      then have "k = L \<or> k = R" using child [of k] by simp
      then have "L \<le> k" by (auto simp: L_def R_def)
      with False k show "slot_key h ns i \<le> slot_key h ns k" by simp
    qed
    from down_part_done [OF dp this] have "sift_post h ns n h ns"
      using hs by (simp add: sift_post_def)
    moreover have "SortDown h ns (slot h i) = Some (h, ns)"
      by (rule SortDown_leaf [OF hs sz i L_def False])
    ultimately show ?thesis by blast
  next
    case ln: True
    define c where "c = (if R < n \<and> slot_key h ns R < slot_key h ns L then R else L)"
    have cn: "c < n" using ln by (simp add: c_def)
    have cLR: "c = L \<or> c = R" by (simp add: c_def)
    then have cp: "(c - 1) div 2 = i" "0 < c" using child [of c] by auto
    have ic: "i < c" using cp by arith
    have mn: "\<forall>k. 0 < k \<and> k < n \<and> (k - 1) div 2 = i \<longrightarrow> slot_key h ns c \<le> slot_key h ns k"
    proof (intro allI impI)
      fix k assume k: "0 < k \<and> k < n \<and> (k - 1) div 2 = i"
      then have "k = L \<or> k = R" using child [of k] by simp
      then show "slot_key h ns c \<le> slot_key h ns k"
      proof
        assume "k = L"
        then show ?thesis by (auto simp: c_def intro: less_imp_le)
      next
        assume kR: "k = R"
        then have "R < n" using k by simp
        then show ?thesis using kR by (auto simp: c_def not_less)
      qed
    qed
    note unf = SortDown_unfold [OF hs sz i L_def R_def ln c_def]
    show ?thesis
    proof (cases "slot_key h ns c < slot_key h ns i")
      case False
      have "\<forall>k. 0 < k \<and> k < n \<and> (k - 1) div 2 = i \<longrightarrow> slot_key h ns i \<le> slot_key h ns k"
      proof (intro allI impI)
        fix k assume k: "0 < k \<and> k < n \<and> (k - 1) div 2 = i"
        have "slot_key h ns i \<le> slot_key h ns c" using False by simp
        also have "\<dots> \<le> slot_key h ns k" using mn k by blast
        finally show "slot_key h ns i \<le> slot_key h ns k" .
      qed
      from down_part_done [OF dp this] have "sift_post h ns n h ns"
        using hs by (simp add: sift_post_def)
      moreover have "SortDown h ns (slot h i) = Some (h, ns)"
        using False by (simp add: unf)
      ultimately show ?thesis by blast
    next
      case True
      from Swap_spec [OF hs i cn] obtain h1 ns1 where
        sw: "Swap h ns (slot h i) (slot h c) = Some (h1, ns1)"
        and hs1: "heap_slots h1 ns1 n" and sz1: "Size h1 = Size h"
        and ln1: "length (Items h1) = length (Items h)"
        and sl: "\<forall>k<n. slot h1 k = slot h (exch i c k)"
        and fr: "frame ns ns1" and st: "set (Items h1) = set (Items h)"
        by blast
      have sk: "\<And>k. k < n \<Longrightarrow> slot_key h ns (exch i c k) = slot_key h1 ns1 k"
        using slot_key_exch [OF hs sl fr i cn] by simp
      have "down_part (\<lambda>k. slot_key h ns (exch i c k)) n c"
        by (rule down_part_swap [OF dp cn cp True mn])
      then have dp1: "down_part (slot_key h1 ns1) n c"
        by (rule down_part_cong [OF sk cn, rotated]) simp
      have p1: "slot h1 c = slot h i" using sl cn ic by (simp add: exch_def)
      have m: "n - c < n - i" using ic cn by arith
      have sz1': "Size h1 = int n" using sz1 sz by simp
      from less.hyps [OF m hs1 sz1' cn dp1] obtain h' ns' where
        r: "SortDown h1 ns1 (slot h1 c) = Some (h', ns')" "sift_post h1 ns1 n h' ns'" by blast
      have hset: "heap_set h1 n = heap_set h n" by (rule heap_set_exch [OF sl i cn])
      have "SortDown h ns (slot h i) = Some (h', ns')"
        using True sw r(1) p1 by (simp add: unf)
      moreover have "sift_post h ns n h' ns'"
        by (rule sift_post_trans [OF sz1 ln1 fr st hset r(2)])
      ultimately show ?thesis by blast
    qed
  qed
qed

section \<open>Add and RemoveFirst\<close>

lemma Size_update_simps [simp]:
  "slot (h\<lparr>Size := s\<rparr>) = slot h" "slot_key (h\<lparr>Size := s\<rparr>) = slot_key h"
  "heap_slots (h\<lparr>Size := s\<rparr>) = heap_slots h" "heap_set (h\<lparr>Size := s\<rparr>) = heap_set h"
  by (auto simp: fun_eq_iff slot_def slot_key_def heap_slots_def heap_set_def)

lemma heap_set_mem: "p \<in> heap_set h n \<longleftrightarrow> (\<exists>k<n. slot h k = p)"
  by (auto simp: heap_set_def)

lemma Add_spec:
  assumes inv: "heap_inv h ns n" and cap: "n < length (Items h)" and p: "p < length ns"
    and np: "p \<notin> heap_set h n"
  shows "\<exists>h' ns'. Add h ns p = Some (h', ns') \<and> heap_inv h' ns' (Suc n)
      \<and> length (Items h') = length (Items h) \<and> frame ns ns'
      \<and> set (Items h') \<subseteq> insert (Some p) (set (Items h))
      \<and> heap_set h' (Suc n) = insert p (heap_set h n)"
proof -
  from inv have hs: "heap_slots h ns n" and ho: "heap_order (slot_key h ns) n"
    and sz: "Size h = int n" by (simp_all add: heap_inv_def)
  define ns1 where "ns1 = ns[p := (ns ! p)\<lparr>HeapIndex := int n\<rparr>]"
  define h1 where "h1 = h\<lparr>Items := (Items h)[n := Some p]\<rparr>"
  have fr1: "frame ns ns1" unfolding ns1_def using p by (rule frame_update_index)
  have it1: "Items h1 ! k = (if k = n then Some p else Items h ! k)" if "k \<le> n" for k
    using that cap by (simp add: h1_def nth_list_update)
  have sl_old: "slot h1 k = slot h k" if "k < n" for k
    using it1 [of k] that by (simp add: slot_def)
  have sl_new: "slot h1 n = p" using it1 [of n] by (simp add: slot_def)
  have ne: "slot h k \<noteq> p" if "k < n" for k
    using np that by (auto simp: heap_set_mem)
  have hs1: "heap_slots h1 ns1 (Suc n)"
    unfolding heap_slots_def
  proof (intro conjI allI impI)
    show "Suc n \<le> length (Items h1)" using cap by (simp add: h1_def)
  next
    fix k assume k: "k < Suc n"
    show "\<exists>q<length ns1. Items h1 ! k = Some q \<and> HeapIndex (ns1 ! q) = int k"
    proof (cases "k = n")
      case True
      then show ?thesis using it1 [of n] p by (auto simp: ns1_def)
    next
      case False
      then have kn: "k < n" using k by simp
      note d = heap_slotsD [OF hs kn]
      have "Items h1 ! k = Some (slot h k)" using it1 [of k] kn d(1) by simp
      moreover have "HeapIndex (ns1 ! slot h k) = int k"
        using ne [OF kn] d(3) by (simp add: ns1_def)
      moreover have "slot h k < length ns1" using d(2) by (simp add: ns1_def)
      ultimately show ?thesis by blast
    qed
  qed
  have sk: "slot_key h1 ns1 k = slot_key h ns k" if "k < n" for k
    using sl_old [OF that] ne [OF that] by (simp add: slot_key_def ns1_def)
  have up: "up_part (slot_key h1 ns1) (Suc n) n"
    unfolding up_part_def
  proof (intro conjI allI impI)
    fix k assume k: "0 < k \<and> k < Suc n \<and> k \<noteq> n"
    then have kn: "k < n" and pk: "(k - 1) div 2 < n" by arith+
    have "slot_key h ns ((k - 1) div 2) \<le> slot_key h ns k"
      using ho k kn unfolding heap_order_def by simp
    then show "slot_key h1 ns1 ((k - 1) div 2) \<le> slot_key h1 ns1 k"
      using sk [OF kn] sk [OF pk] by simp
  next
    fix k assume k: "0 < k \<and> k < Suc n \<and> (k - 1) div 2 = n \<and> 0 < n"
    then have False by arith
    then show "slot_key h1 ns1 ((n - 1) div 2) \<le> slot_key h1 ns1 k" ..
  qed
  from SortUp_spec [OF hs1 _ up] obtain h2 ns2 where
    su: "SortUp h1 ns1 (slot h1 n) = Some (h2, ns2)" and post: "sift_post h1 ns1 (Suc n) h2 ns2"
    by auto
  have add: "Add h ns p = Some (h2\<lparr>Size := Size h2 + 1\<rparr>, ns2)"
    using p cap su sl_new
    by (simp add: Add_def node_at_def set_item_def IsValidIndex_def sz ns1_def h1_def)
  have sz2: "Size h2 = int n" using post sz by (simp add: sift_post_def h1_def)
  have inv': "heap_inv (h2\<lparr>Size := Size h2 + 1\<rparr>) ns2 (Suc n)"
    using post sz2 by (simp add: heap_inv_def sift_post_def)
  have len: "length (Items (h2\<lparr>Size := Size h2 + 1\<rparr>)) = length (Items h)"
    using post by (simp add: sift_post_def h1_def)
  have fr: "frame ns ns2" using fr1 post by (auto simp: sift_post_def intro: frame_trans)
  have "set (Items h1) \<subseteq> insert (Some p) (set (Items h))"
    unfolding h1_def by (simp add: set_update_subset_insert)
  then have st: "set (Items (h2\<lparr>Size := Size h2 + 1\<rparr>)) \<subseteq> insert (Some p) (set (Items h))"
    using post by (simp add: sift_post_def)
  have "heap_set h1 (Suc n) = insert p (heap_set h n)"
  proof -
    have "heap_set h1 (Suc n) = insert (slot h1 n) (slot h1 ` {..<n})"
      by (simp add: heap_set_def lessThan_Suc)
    also have "slot h1 ` {..<n} = slot h ` {..<n}"
      by (rule image_cong) (simp_all add: sl_old)
    finally show ?thesis by (simp add: sl_new heap_set_def)
  qed
  then have hset: "heap_set (h2\<lparr>Size := Size h2 + 1\<rparr>) (Suc n) = insert p (heap_set h n)"
    using post by (simp add: sift_post_def)
  show ?thesis using add inv' len fr st hset by blast
qed

lemma RemoveFirst_spec:
  assumes inv: "heap_inv h ns n" and n: "0 < n"
  shows "\<exists>h' ns'. RemoveFirst h ns = Some (slot h 0, h', ns') \<and> heap_inv h' ns' (n - 1)
      \<and> length (Items h') = length (Items h) \<and> frame ns ns'
      \<and> set (Items h') \<subseteq> set (Items h)
      \<and> heap_set h' (n - 1) = heap_set h n - {slot h 0}
      \<and> slot h 0 \<in> heap_set h n
      \<and> (\<forall>q \<in> heap_set h n. key (ns ! slot h 0) \<le> key (ns ! q))"
proof -
  from inv have hs: "heap_slots h ns n" and ho: "heap_order (slot_key h ns) n"
    and sz: "Size h = int n" by (simp_all add: heap_inv_def)
  define m where "m = n - 1"
  have mn: "m < n" "n = Suc m" using n by (simp_all add: m_def)
  define l where "l = slot h m"
  define h2 where "h2 = h\<lparr>Size := int m, Items := (Items h)[0 := Some l]\<rparr>"
  define ns1 where "ns1 = ns[l := (ns ! l)\<lparr>HeapIndex := 0\<rparr>]"
  note d0 = heap_slotsD [OF hs n] and dm = heap_slotsD [OF hs mn(1)]
  have ll: "l < length ns" using dm(2) by (simp add: l_def)
  have fr1: "frame ns ns1" unfolding ns1_def using ll by (rule frame_update_index)
  have minp: "\<forall>q \<in> heap_set h n. key (ns ! slot h 0) \<le> key (ns ! q)"
  proof
    fix q assume "q \<in> heap_set h n"
    then obtain k where k: "k < n" "slot h k = q" by (auto simp: heap_set_mem)
    from heap_order_root [OF ho k(1)] show "key (ns ! slot h 0) \<le> key (ns ! q)"
      using k(2) by (simp add: slot_key_def)
  qed
  have mem0: "slot h 0 \<in> heap_set h n" using n by (auto simp: heap_set_mem)
  have it2: "Items h2 ! k = (if k = 0 then Some l else Items h ! k)" for k
    using d0(4) by (simp add: h2_def nth_list_update)
  have sl0: "slot h2 0 = l" using it2 [of 0] by (simp add: slot_def)
  have slk: "slot h2 k = slot h k" if "0 < k" for k
    using it2 [of k] that by (simp add: slot_def)
  have ne: "slot h k \<noteq> l" if "k < m" for k
    using heap_slots_inj [OF hs _ mn(1), of k] that mn(1) by (auto simp: l_def)
  have hs2: "heap_slots h2 ns1 m"
    unfolding heap_slots_def
  proof (intro conjI allI impI)
    show "m \<le> length (Items h2)" using dm(4) by (simp add: h2_def)
  next
    fix k assume k: "k < m"
    show "\<exists>q<length ns1. Items h2 ! k = Some q \<and> HeapIndex (ns1 ! q) = int k"
    proof (cases "k = 0")
      case True
      then show ?thesis using it2 [of 0] ll by (auto simp: ns1_def)
    next
      case False
      have kn: "k < n" using k mn by simp
      note d = heap_slotsD [OF hs kn]
      have "Items h2 ! k = Some (slot h k)" using it2 [of k] False d(1) by simp
      moreover have "HeapIndex (ns1 ! slot h k) = int k"
        using ne [OF k] d(3) by (simp add: ns1_def)
      moreover have "slot h k < length ns1" using d(2) by (simp add: ns1_def)
      ultimately show ?thesis by blast
    qed
  qed
  have sk: "slot_key h2 ns1 k = slot_key h ns k" if "0 < k" "k < m" for k
    using slk [OF that(1)] ne [OF that(2)] by (simp add: slot_key_def ns1_def)
  have dp: "down_part (slot_key h2 ns1) m 0"
    unfolding down_part_def
  proof (intro conjI allI impI)
    fix k assume k: "0 < k \<and> k < m \<and> (k - 1) div 2 \<noteq> 0"
    then have a: "0 < (k - 1) div 2" "(k - 1) div 2 < m" "k < n" using mn by arith+
    have "slot_key h ns ((k - 1) div 2) \<le> slot_key h ns k"
      using ho k a(3) unfolding heap_order_def by simp
    then show "slot_key h2 ns1 ((k - 1) div 2) \<le> slot_key h2 ns1 k"
      using sk [OF a(1,2)] sk [of k] k by simp
  next
    fix k assume "0 < k \<and> k < m \<and> (k - 1) div 2 = 0 \<and> (0::nat) < 0"
    then show "slot_key h2 ns1 ((0 - 1) div 2) \<le> slot_key h2 ns1 k" by simp
  qed
  have sz2: "Size h2 = int m" by (simp add: h2_def)
  have hset2: "heap_set h2 m = heap_set h n - {slot h 0}" if "0 < m"
  proof (intro equalityI subsetI)
    fix q assume "q \<in> heap_set h2 m"
    then obtain k where k: "k < m" "slot h2 k = q" by (auto simp: heap_set_mem)
    show "q \<in> heap_set h n - {slot h 0}"
    proof (cases "k = 0")
      case True
      then have "q = slot h m" using k sl0 by (simp add: l_def)
      moreover have "slot h m \<noteq> slot h 0"
        using heap_slots_inj [OF hs mn(1) n] that by auto
      ultimately show ?thesis using mn(1) by (auto simp: heap_set_mem)
    next
      case False
      then have "q = slot h k" using k slk [of k] by simp
      moreover have "slot h k \<noteq> slot h 0"
        using heap_slots_inj [OF hs _ n, of k] k mn False by auto
      moreover have "k < n" using k mn by simp
      ultimately show ?thesis by (auto simp: heap_set_mem intro!: exI [of _ k])
    qed
  next
    fix q assume "q \<in> heap_set h n - {slot h 0}"
    then obtain k where k: "k < n" "slot h k = q" "q \<noteq> slot h 0" by (auto simp: heap_set_mem)
    then have k0: "0 < k" by (cases "k = 0") auto
    show "q \<in> heap_set h2 m"
    proof (cases "k = m")
      case True
      then have "slot h2 0 = q" using sl0 k by (simp add: l_def)
      then show ?thesis using that by (auto simp: heap_set_mem)
    next
      case False
      then have "k < m" using k mn by simp
      moreover have "slot h2 k = q" using slk [OF k0] k by simp
      ultimately show ?thesis by (auto simp: heap_set_mem)
    qed
  qed
  have st2: "set (Items h2) \<subseteq> set (Items h)"
  proof -
    have "Some l \<in> set (Items h)" using dm(1,4) by (metis l_def nth_mem)
    moreover have "set (Items h2) \<subseteq> insert (Some l) (set (Items h))"
      by (simp add: h2_def set_update_subset_insert)
    ultimately show ?thesis by auto
  qed
  have pre: "RemoveFirst h ns = do { (h3, ns3) \<leftarrow> SortDown h2 ns1 l; Some (slot h 0, h3, ns3) }"
  proof -
    have a: "item_at h 0 = Some (slot h 0)" using item_at_slot [OF hs n] by simp
    have b: "item_at (h\<lparr>Size := int n - 1\<rparr>) (int n - 1) = Some l"
      using dm(1,4) mn(2) by (simp add: item_at_def IsValidIndex_def l_def)
    have c: "set_item (h\<lparr>Size := int n - 1\<rparr>) 0 l = Some h2"
      using d0(4) mn(2) by (simp add: set_item_def IsValidIndex_def h2_def)
    show ?thesis
      using ll by (simp add: RemoveFirst_def a sz b c node_at_def Let_def ns1_def)
  qed
  show ?thesis
  proof (cases "m = 0")
    case True
    have lf: "SortDown h2 ns1 l = Some (h2, ns1)"
      using ll True
      by (subst SortDown.simps)
        (simp add: node_at_def ns1_def GetLeftChild_def h2_def Let_def)
    have "heap_inv h2 ns1 (n - 1)"
      using True by (simp add: heap_inv_def heap_slots_def heap_order_def h2_def m_def)
    moreover have "heap_set h2 (n - 1) = heap_set h n - {slot h 0}"
      using True mn by (auto simp: heap_set_def)
    moreover have "length (Items h2) = length (Items h)" by (simp add: h2_def)
    ultimately show ?thesis using pre lf fr1 st2 minp mem0 by simp
  next
    case False
    then have m0: "0 < m" by simp
    from SortDown_spec [OF hs2 sz2 m0 dp] obtain h3 ns3 where
      sd: "SortDown h2 ns1 (slot h2 0) = Some (h3, ns3)" and post: "sift_post h2 ns1 m h3 ns3"
      by blast
    have "heap_inv h3 ns3 (n - 1)"
      using post sz2 by (simp add: heap_inv_def sift_post_def m_def)
    moreover have "heap_set h3 (n - 1) = heap_set h n - {slot h 0}"
      using post hset2 [OF m0] by (simp add: sift_post_def m_def)
    moreover have "length (Items h3) = length (Items h)"
      using post by (simp add: sift_post_def h2_def)
    moreover have "frame ns ns3" using fr1 post by (auto simp: sift_post_def intro: frame_trans)
    moreover have "set (Items h3) \<subseteq> set (Items h)" using st2 post by (simp add: sift_post_def)
    ultimately show ?thesis using pre sd sl0 minp mem0 by simp
  qed
qed

section \<open>UpdateItem and sequences of operations\<close>



lemma heap_set_bound:
  assumes "heap_inv h ns n" "p \<in> heap_set h n"
  shows "p < length ns"
  using assms heap_slotsD(2) by (auto simp: heap_inv_def heap_set_mem)



lemma heap_inv_new: "heap_inv (FBytesPathfindingHeap_new Capacity) ns 0"
  by (simp add: heap_inv_def heap_slots_def heap_order_def FBytesPathfindingHeap_new_def)





section \<open>FindPathsToNodes without a reset\<close>

lemma frame_ids_dense:
  assumes "frame (Nodes g) ns'" "ids_dense g"
  shows "ids_dense (g\<lparr>Nodes := ns'\<rparr>)"
proof -
  have "map NodeID ns' = map NodeID (Nodes g)"
  proof (rule nth_equalityI)
    show "length (map NodeID ns') = length (map NodeID (Nodes g))"
      using frame_length [OF assms(1)] by simp
  next
    fix i assume "i < length (map NodeID ns')"
    then have i: "i < length (Nodes g)" using frame_length [OF assms(1)] by simp
    then show "map NodeID ns' ! i = map NodeID (Nodes g) ! i"
      using frame_fields(1) [OF assms(1) i] frame_length [OF assms(1)] by simp
  qed
  then show ?thesis using assms(2) frame_length [OF assms(1)] by (simp add: ids_dense_def)
qed

lemma graph_ok_frame:
  assumes "graph_ok W g" "frame (Nodes g) ns'"
  shows "graph_ok W (g\<lparr>Nodes := ns'\<rparr>)"
  using assms frame_ids_dense [OF assms(2)] frame_length [OF assms(2)]
  by (simp add: graph_ok_def IsValidIndex_def)

lemma graph_ok_edge:
  assumes "graph_ok W g" "u < length (Nodes g)" "e \<in> set (NeighbouringEdges (Edges g ! u))"
  shows "IsValidIndex (Nodes g) (EdgeNodeID e)" "0 \<le> Weight e" "Weight e \<le> W"
proof -
  have "Edges g ! u \<in> set (Edges g)" using assms(1,2) by (simp add: graph_ok_def)
  then show "IsValidIndex (Nodes g) (EdgeNodeID e)" "0 \<le> Weight e" "Weight e \<le> W"
    using assms(1,3) by (auto simp: graph_ok_def)
qed

lemma valid_nth_mem: "IsValidIndex xs i \<Longrightarrow> xs ! nat i \<in> set xs"
  by (auto simp: IsValidIndex_def intro!: nth_mem)

lemma add_nodes_spec:
  assumes "heap_inv h ns k" "heap_set h k = {..<k}" "length (Items h) = length ns" "k \<le> length ns"
  shows "\<exists>h' ns'. add_nodes h ns [k..<length ns] = Some (h', ns') \<and> heap_inv h' ns' (length ns)
     \<and> heap_set h' (length ns) = {..<length ns} \<and> frame ns ns'
     \<and> length (Items h') = length ns"
  using assms
proof (induction "length ns - k" arbitrary: h ns k)
  case 0
  then have "k = length ns" by simp
  with 0 show ?case by simp
next
  case (Suc d)
  then have k: "k < length ns" by simp
  have cap: "k < length (Items h)" using k Suc.prems(3) by simp
  have np: "k \<notin> heap_set h k" using Suc.prems(2) by simp
  from Add_spec [OF Suc.prems(1) cap k np] obtain h1 ns1 where
    a: "Add h ns k = Some (h1, ns1)" and inv1: "heap_inv h1 ns1 (Suc k)"
    and len1: "length (Items h1) = length (Items h)" and fr1: "frame ns ns1"
    and hset1: "heap_set h1 (Suc k) = insert k (heap_set h k)"
    by blast
  have l1: "length ns1 = length ns" by (rule frame_length [OF fr1])
  have d: "d = length ns1 - Suc k" using Suc.hyps(2) l1 by simp
  have hs: "heap_set h1 (Suc k) = {..<Suc k}" using hset1 Suc.prems(2) by (simp add: lessThan_Suc)
  have li: "length (Items h1) = length ns1" using len1 Suc.prems(3) l1 by simp
  have sk: "Suc k \<le> length ns1" using k l1 by simp
  from Suc.hyps(1) [OF d inv1 hs li sk] obtain h' ns' where
    r: "add_nodes h1 ns1 [Suc k..<length ns1] = Some (h', ns')" "heap_inv h' ns' (length ns1)"
    "heap_set h' (length ns1) = {..<length ns1}" "frame ns1 ns'" "length (Items h') = length ns1"
    by blast
  have "add_nodes h ns [k..<length ns] = Some (h', ns')"
    using k a r(1) l1 by (simp add: upt_conv_Cons)
  moreover have "frame ns ns'" by (rule frame_trans [OF fr1 r(4)])
  ultimately show ?case using r(2,3,5) l1 by auto
qed

lemma relax_edges_none:
  assumes "\<forall>e \<in> set es. IsValidIndex (Nodes g) (EdgeNodeID e) \<and> 0 \<le> Weight e \<and> Weight e \<le> 2147483647"
    and "\<forall>n \<in> set (Nodes g). GCost n = 0" and "IsValidIndex (Nodes g) nid"
  shows "relax_edges h g nid es = Some (h, g)"
  using assms
proof (induction es)
  case Nil
  then show ?case by simp
next
  case (Cons e es)
  have c: "GCost (Nodes g ! nat nid) = 0"
    using Cons.prems(2) valid_nth_mem [OF Cons.prems(3)] by blast
  have v: "IsValidIndex (Nodes g) (EdgeNodeID e)" "0 \<le> Weight e" "Weight e \<le> 2147483647"
    using Cons.prems(1) by simp_all
  have t: "GCost (Nodes g ! nat (EdgeNodeID e)) = 0"
    using Cons.prems(2) valid_nth_mem [OF v(1)] by blast
  have d: "add32 0 (Weight e) = Weight e" using v(2,3) by (simp add: add32_def wrap32_id)
  have "relax_edges h g nid es = Some (h, g)"
    using Cons.IH Cons.prems by simp
  then show ?case using Cons.prems(3) v c t d by (simp add: at_def Let_def)
qed

lemma FindPathsToNodes_loop_fresh:
  assumes "heap_inv h (Nodes g) n" "graph_ok 2147483647 g" "\<forall>n \<in> set (Nodes g). GCost n = 0"
  shows "\<exists>ns'. FindPathsToNodes_loop h g = Some (g\<lparr>Nodes := ns'\<rparr>) \<and> frame (Nodes g) ns'"
  using assms
proof (induction n arbitrary: h g)
  case 0
  then have "\<not> IsNotEmpty h" by (simp add: heap_inv_def IsNotEmpty_def)
  then have "FindPathsToNodes_loop h g = Some (g\<lparr>Nodes := Nodes g\<rparr>)"
    by (subst FindPathsToNodes_loop.simps) simp
  then show ?case using frame_refl by blast
next
  case (Suc n)
  have ne: "IsNotEmpty h" using Suc.prems(1) by (simp add: heap_inv_def IsNotEmpty_def)
  from RemoveFirst_spec [OF Suc.prems(1)] obtain h1 ns1 where
    rf: "RemoveFirst h (Nodes g) = Some (slot h 0, h1, ns1)" and inv1: "heap_inv h1 ns1 n"
    and fr: "frame (Nodes g) ns1" and mem: "slot h 0 \<in> heap_set h (Suc n)"
    by auto
  define u where "u = slot h 0"
  define g1 where "g1 = g\<lparr>Nodes := ns1\<rparr>"
  have ul: "u < length (Nodes g)" using heap_set_bound [OF Suc.prems(1) mem] by (simp add: u_def)
  have l1: "length ns1 = length (Nodes g)" by (rule frame_length [OF fr])
  have ok1: "graph_ok 2147483647 g1" unfolding g1_def by (rule graph_ok_frame [OF Suc.prems(2) fr])
  have id: "NodeID (ns1 ! u) = int u"
    using ids_dense_nth [of g1 u] ok1 ul l1 by (simp add: graph_ok_def g1_def)
  have z1: "\<forall>n \<in> set (Nodes g1). GCost n = 0"
  proof
    fix x assume "x \<in> set (Nodes g1)"
    then obtain i where i: "i < length ns1" "x = ns1 ! i" by (auto simp: g1_def in_set_conv_nth)
    have "GCost (ns1 ! i) = GCost (Nodes g ! i)" using frame_fields(3) [OF fr] i l1 by simp
    then show "GCost x = 0" using Suc.prems(3) i l1 by simp
  qed
  have el: "u < length (Edges g)" using ul Suc.prems(2) by (simp add: graph_ok_def)
  have es: "\<forall>e \<in> set (NeighbouringEdges (Edges g ! u)).
      IsValidIndex (Nodes g1) (EdgeNodeID e) \<and> 0 \<le> Weight e \<and> Weight e \<le> 2147483647"
    using graph_ok_edge [OF ok1, of u] ul l1 by (simp add: g1_def)
  have vu: "IsValidIndex (Nodes g1) (int u)" using ul l1 by (simp add: IsValidIndex_def g1_def)
  have rl: "relax_edges h1 g1 (int u) (NeighbouringEdges (Edges g ! u)) = Some (h1, g1)"
    by (rule relax_edges_none [OF es z1 vu])
  have inv1': "heap_inv h1 (Nodes g1) n" using inv1 by (simp add: g1_def)
  from Suc.IH [OF inv1' ok1 z1] obtain ns' where
    r: "FindPathsToNodes_loop h1 g1 = Some (g1\<lparr>Nodes := ns'\<rparr>)" "frame (Nodes g1) ns'" by blast
  have "FindPathsToNodes_loop h g = Some (g\<lparr>Nodes := ns'\<rparr>)"
    using ne rf ul l1 id el rl r(1)
    by (subst FindPathsToNodes_loop.simps)
      (simp add: u_def [symmetric] node_at_def at_def IsValidIndex_def g1_def [symmetric],
       simp add: g1_def)
  moreover have "frame (Nodes g) ns'" using fr r(2) by (auto simp: g1_def intro: frame_trans)
  ultimately show ?case by blast
qed

text \<open>
  Claim C7, amended.  \<open>FindPathsToNodes\<close> does not reset the nodes.  On a graph whose
  nodes all have cost 0 and no predecessor (as \<open>AddNode\<close> creates them), with
  non-negative weights, a run from a valid start returns and leaves every cost at 0
  and every predecessor at -1: no node but the start looks reached, whatever the
  edges are.
\<close>

theorem FindPathsToNodes_fresh:
  assumes "graph_ok 2147483647 g" "\<forall>n \<in> set (Nodes g). GCost n = 0 \<and> ParentID n = -1"
    and "IsValidIndex (Nodes g) s"
  shows "\<exists>g'. FindPathsToNodes g s = Some g' \<and> Edges g' = Edges g
      \<and> frame (Nodes g) (Nodes g')
      \<and> (\<forall>n \<in> set (Nodes g'). GCost n = 0 \<and> ParentID n = -1)"
proof -
  define N where "N = length (Nodes g)"
  define h0 where "h0 = FBytesPathfindingHeap_new (int N)"
  have "GCost (Nodes g ! nat s) = 0" using assms(2) valid_nth_mem [OF assms(3)] by blast
  then have "(Nodes g ! nat s)\<lparr>GCost := 0\<rparr> = Nodes g ! nat s"
    by (cases "Nodes g ! nat s") simp
  then have s0: "(Nodes g)[nat s := (Nodes g ! nat s)\<lparr>GCost := 0\<rparr>] = Nodes g"
    by simp
  have i0: "heap_inv h0 (Nodes g) 0" unfolding h0_def by (rule heap_inv_new)
  have "add_nodes h0 (Nodes g) [0..<length (Nodes g)] = add_nodes h0 (Nodes g) [0..<length (Nodes g)]" ..
  from add_nodes_spec [OF i0, simplified] obtain h1 ns1 where
    a: "add_nodes h0 (Nodes g) [0..<length (Nodes g)] = Some (h1, ns1)"
    and inv1: "heap_inv h1 ns1 (length (Nodes g))" and fr1: "frame (Nodes g) ns1"
    by (auto simp: h0_def heap_set_def FBytesPathfindingHeap_new_def N_def)
  define g1 where "g1 = g\<lparr>Nodes := ns1\<rparr>"
  have l1: "length ns1 = length (Nodes g)" by (rule frame_length [OF fr1])
  have ok1: "graph_ok 2147483647 g1" unfolding g1_def by (rule graph_ok_frame [OF assms(1) fr1])
  have fld: "GCost (ns1 ! i) = 0 \<and> ParentID (ns1 ! i) = -1" if "i < length (Nodes g)" for i
    using frame_fields(2,3) [OF fr1 that] assms(2) that by simp
  have z1: "\<forall>n \<in> set (Nodes g1). GCost n = 0"
    using fld l1 by (auto simp: g1_def in_set_conv_nth)
  have inv1': "heap_inv h1 (Nodes g1) (length (Nodes g))" using inv1 by (simp add: g1_def)
  from FindPathsToNodes_loop_fresh [OF inv1' ok1 z1] obtain ns' where
    r: "FindPathsToNodes_loop h1 g1 = Some (g1\<lparr>Nodes := ns'\<rparr>)" "frame (Nodes g1) ns'" by blast
  have fr: "frame (Nodes g) ns'" using fr1 r(2) by (auto simp: g1_def intro: frame_trans)
  have run: "FindPathsToNodes g s = Some (g\<lparr>Nodes := ns'\<rparr>)"
    using assms(3) a r(1)
    by (simp add: FindPathsToNodes_def at_def Let_def s0 h0_def N_def g1_def)
  have "GCost (ns' ! i) = 0 \<and> ParentID (ns' ! i) = -1" if "i < length (Nodes g)" for i
    using frame_fields(2,3) [OF fr that] assms(2) that by simp
  then have "\<forall>n \<in> set ns'. GCost n = 0 \<and> ParentID n = -1"
    using frame_length [OF fr] by (auto simp: in_set_conv_nth)
  then show ?thesis using run fr by simp
qed

theorem FindPathsToNodes_fresh_witness:
  "graph_ok 2147483647 fresh_graph \<and> IsValidIndex (Nodes fresh_graph) 1
   \<and> (\<exists>g'. FindPathsToNodes fresh_graph 1 = Some g' \<and> costs_parents g' = [(0, -1), (0, -1)])"
proof -
  have ok: "graph_ok 2147483647 fresh_graph"
    by (simp add: graph_ok_def ids_dense_def fresh_graph_def example_defs IsValidIndex_def
        nth_Cons')
  have fr: "\<forall>n \<in> set (Nodes fresh_graph). GCost n = 0 \<and> ParentID n = -1"
    by (simp add: fresh_graph_def example_defs)
  have s: "IsValidIndex (Nodes fresh_graph) 1"
    by (simp add: IsValidIndex_def fresh_graph_def example_defs)
  from FindPathsToNodes_fresh [OF ok fr s] obtain g' where
    run: "FindPathsToNodes fresh_graph 1 = Some g'"
    and f: "frame (Nodes fresh_graph) (Nodes g')"
    and a: "\<forall>n \<in> set (Nodes g'). GCost n = 0 \<and> ParentID n = -1"
    by blast
  from frame_length [OF f] have "length (Nodes g') = 2"
    by (simp add: fresh_graph_def example_defs)
  then obtain x y where xy: "Nodes g' = [x, y]"
    by (metis (no_types, opaque_lifting) length_0_conv length_Suc_conv numeral_2_eq_2)
  with a have "costs_parents g' = [(0, -1), (0, -1)]"
    by (simp add: costs_parents_def)
  with ok s run show ?thesis by blast
qed

lemmas SortUp_induct = SortUp.raw_induct [rotated 1, consumes 1, case_names step]

lemma SortUp_loop:
  assumes n: "node_at ns p = Some n" and q: "item_at h (GetParent (HeapIndex n)) = Some q"
    and nq: "node_at ns q = Some nq" and hp: "higher_priority n nq"
    and sw: "Swap h ns q p = Some (h, ns)"
  shows "SortUp h ns p = None"
proof -
  have "SortUp h' ns' p' = Some r \<Longrightarrow> \<not> (h' = h \<and> ns' = ns \<and> p' = p)" for h' ns' p' r
  proof (induction rule: SortUp_induct)
    case (step sortup h' ns' p' r)
    show ?case
    proof
      assume e: "h' = h \<and> ns' = ns \<and> p' = p"
      with step(2) n q nq hp sw have "sortup h ns p = Some r" by simp
      from step(1) [OF this] show False by simp
    qed
  qed
  from this [of h ns p] show ?thesis by (cases "SortUp h ns p") auto
qed

text \<open>
  Claim C7, as stated, fails when a weight is negative, which \<open>AddOrSetEdge\<close> accepts:
  on two fresh nodes joined by an edge of weight -1, the first iteration of the run
  from node 0 relaxes node 1 to cost -1 with predecessor 0.  The run then never
  returns: the second iteration lowers the cost of node 0, which has left the heap,
  and \<^verbatim>\<open>SortUp\<close> swaps it with the node in slot 0 again and again.
\<close>

theorem FindPathsToNodes_negative_counterexample:
  "AddOrSetEdge (snd (AddNode () 0 (snd (AddNode () 0 CreateGraph ())) ())) 0 1 (-1)
     = Some neg_graph
   \<and> costs_parents neg_graph = [(0, -1), (0, -1)]
   \<and> do { (h1, ns1) \<leftarrow> add_nodes (FBytesPathfindingHeap_new 2) (Nodes neg_graph) [0, 1];
          (Node, h2, ns2) \<leftarrow> RemoveFirst h1 ns1;
          (h3, g3) \<leftarrow> relax_edges h2 (neg_graph\<lparr>Nodes := ns2\<rparr>) (int Node)
                        [\<lparr>EdgeNodeID = 1, Weight = -1\<rparr>];
          Some (Node, costs_parents g3) } = Some (0, [(0, -1), (-1, 0)])
   \<and> FindPathsToNodes neg_graph 0 = None"
proof -
  note neg = neg_graph_def graph_of_def unit_node_def
  have a: "AddOrSetEdge (snd (AddNode () 0 (snd (AddNode () 0 CreateGraph ())) ())) 0 1 (-1)
     = Some neg_graph"
    by (simp add: AddOrSetEdge_def AddNode_def CreateGraph_def FBytesNode_default_def neg
        at_def IsValidIndex_def add_edge_def Let_def)
  have b: "costs_parents neg_graph = [(0, -1), (0, -1)]"
    by (simp add: costs_parents_def neg)
  have c: "do { (h1, ns1) \<leftarrow> add_nodes (FBytesPathfindingHeap_new 2) (Nodes neg_graph) [0, 1];
          (Node, h2, ns2) \<leftarrow> RemoveFirst h1 ns1;
          (h3, g3) \<leftarrow> relax_edges h2 (neg_graph\<lparr>Nodes := ns2\<rparr>) (int Node)
                        [\<lparr>EdgeNodeID = 1, Weight = -1\<rparr>];
          Some (Node, costs_parents g3) } = Some (0, [(0, -1), (-1, 0)])"
    by (simp add: neg heap_eval costs_parents_def numeral_2_eq_2)
  define hL :: FBytesPathfindingHeap where
    "hL = \<lparr>Items = [Some (Suc 0), Some (Suc 0)], Size = 0\<rparr>"
  define nsL :: "unit FBytesNode list" where
    "nsL = [\<lparr>NodeID = 0, ParentID = 1, GCost = -2, HCost = 0, Location2D = (), HeapIndex = 0\<rparr>,
            \<lparr>NodeID = 1, ParentID = 0, GCost = -1, HCost = 0, Location2D = (), HeapIndex = 0\<rparr>]"
  have L: "UpdateItem hL nsL 0 = None"
    unfolding UpdateItem_def
    by (rule SortUp_loop [where q = "Suc 0" and n = "nsL ! 0" and nq = "nsL ! Suc 0"])
      (simp_all add: hL_def nsL_def node_at_def item_at_def IsValidIndex_def GetParent_0
        higher_priority_def FCost_def add32_def wrap32_def Swap_def set_item_def)
  have d1: "FindPathsToNodes neg_graph 0
      = FindPathsToNodes_loop \<lparr>Items = [Some 1, Some 1], Size = 1\<rparr>
          (neg_graph\<lparr>Nodes := [unit_node 0 (-1) 0, unit_node 1 0 (-1)]\<rparr>)"
    apply (simp add: FindPathsToNodes_def neg heap_eval upt_rec numeral_2_eq_2)
    apply (subst FindPathsToNodes_loop.simps)
    apply (simp add: neg heap_eval numeral_2_eq_2)
    done
  have d2: "FindPathsToNodes_loop \<lparr>Items = [Some 1, Some 1], Size = 1\<rparr>
          (neg_graph\<lparr>Nodes := [unit_node 0 (-1) 0, unit_node 1 0 (-1)]\<rparr>) = None"
    apply (subst FindPathsToNodes_loop.simps)
    apply (simp add: neg at_def IsValidIndex_def RemoveFirst_def node_at_def IsNotEmpty_def
        set_item_def item_at_def SortDown.simps GetLeftChild_def GetRightChild_def add32_def
        wrap32_def L [unfolded hL_def nsL_def])
    done
  show ?thesis using a b c d1 d2 by simp
qed

section \<open>FindPathsToNodes after a reset\<close>

subsection \<open>The invariant on costs and predecessors\<close>






subsection \<open>Relaxing the edges of a node\<close>







subsection \<open>The loop\<close>


subsection \<open>Shortest paths\<close>










section \<open>FindPath\<close>

subsection \<open>The invariant on costs\<close>

lemma path_cost_valid:
  assumes "graph_ok W g" "path_cost g s v c"
  shows "IsValidIndex (Nodes g) v"
  using assms(2)
proof (induction rule: path_cost.induct)
  case start
  then show ?case by simp
next
  case (edge u c adj e)
  from assms(1) have l: "length (Edges g) = length (Nodes g)" by (simp add: graph_ok_def)
  from edge.hyps(2) have "nat u < length (Nodes g)" "adj = Edges g ! nat u"
    using l by (auto simp: at_def IsValidIndex_def nat_less_iff split: if_splits)
  then show ?case using graph_ok_edge(1) [OF assms(1), of "nat u" e] edge.hyps(3) by simp
qed


lemma path_cost_cong:
  assumes "Edges g' = Edges g" "length (Nodes g') = length (Nodes g)"
  shows "path_cost g' s v c \<longleftrightarrow> path_cost g s v c"
proof
  assume "path_cost g' s v c"
  then show "path_cost g s v c"
  proof (induction rule: path_cost.induct)
    case start
    then show ?case using assms by (auto simp: IsValidIndex_def intro: path_cost.start)
  next
    case (edge u c adj e)
    then show ?case using assms path_cost.edge [of g s u c adj e] by simp
  qed
next
  assume "path_cost g s v c"
  then show "path_cost g' s v c"
  proof (induction rule: path_cost.induct)
    case start
    then show ?case using assms by (auto simp: IsValidIndex_def intro: path_cost.start)
  next
    case (edge u c adj e)
    then show ?case using assms path_cost.edge [of g' s u c adj e] by simp
  qed
qed






subsection \<open>The heap of open nodes\<close>











subsection \<open>The loop over the edges\<close>




subsection \<open>The main loop\<close>




subsection \<open>Optimality\<close>






section \<open>GetPath with and without recalculation\<close>








end
